theory Spec2Isabelle
  imports Main "HOL-Library.Char_ord" "HOL-Library.List_Lexorder" "HOL-Library.Sublist"
    "HOL-Library.AList"
begin

section \<open>Strings and characters\<close>

text \<open>
  A Python \<open>str\<close> is modelled as a \<open>string\<close> whose characters are the code points
  0..255, ordered by code point. The character classes below are the ones Python 3 uses
  on that range: \<open>str.isspace\<close> and the regular-expression classes \<open>\\s\<close>, \<open>\\d\<close>,
  \<open>\\w\<close> (the latter is \<open>str.isalnum\<close> or the underscore).
\<close>

definition in_range :: "char \<Rightarrow> char \<Rightarrow> char \<Rightarrow> bool" where
  "in_range lo hi c = (lo \<le> c \<and> c \<le> hi)"

definition py_isspace :: "char \<Rightarrow> bool" where
  "py_isspace c =
     (in_range (CHR 0x09) (CHR 0x0D) c \<or> in_range (CHR 0x1C) (CHR 0x20) c \<or>
      c = CHR 0x85 \<or> c = CHR 0xA0)"

definition re_digit :: "char \<Rightarrow> bool" where
  "re_digit c = in_range (CHR ''0'') (CHR ''9'') c"

definition re_word :: "char \<Rightarrow> bool" where
  "re_word c =
     (in_range (CHR ''0'') (CHR ''9'') c \<or> in_range (CHR ''A'') (CHR ''Z'') c \<or> c = CHR ''_'' \<or>
      in_range (CHR ''a'') (CHR ''z'') c \<or>
      c = CHR 0xAA \<or> c = CHR 0xB2 \<or> c = CHR 0xB3 \<or> c = CHR 0xB5 \<or> c = CHR 0xB9 \<or>
      c = CHR 0xBA \<or> in_range (CHR 0xBC) (CHR 0xBE) c \<or> in_range (CHR 0xC0) (CHR 0xD6) c \<or>
      in_range (CHR 0xD8) (CHR 0xF6) c \<or> in_range (CHR 0xF8) (CHR 0xFF) c)"

text \<open>
  \<open>str.lower\<close> and \<open>str.upper\<close> on one character. In the ranges concerned the lower-case
  letter is 32 code points above the upper-case one, and the bit of value 32 is clear in
  the upper-case letter: lowering sets that bit, raising clears it. The upper-case forms
  of code points 0xB5, 0xDF and 0xFF lie outside the range 0..255; the model leaves
  these three characters unchanged.
\<close>

definition with_bit5 :: "bool \<Rightarrow> char \<Rightarrow> char" where
  "with_bit5 b c =
     Char (digit0 c) (digit1 c) (digit2 c) (digit3 c) (digit4 c) b (digit6 c) (digit7 c)"

definition py_lower_char :: "char \<Rightarrow> char" where
  "py_lower_char c =
     (if in_range (CHR ''A'') (CHR ''Z'') c \<or> in_range (CHR 0xC0) (CHR 0xD6) c \<or>
         in_range (CHR 0xD8) (CHR 0xDE) c
      then with_bit5 True c else c)"

definition py_upper_char :: "char \<Rightarrow> char" where
  "py_upper_char c =
     (if in_range (CHR ''a'') (CHR ''z'') c \<or> in_range (CHR 0xE0) (CHR 0xF6) c \<or>
         in_range (CHR 0xF8) (CHR 0xFE) c
      then with_bit5 False c else c)"

definition py_lower :: "string \<Rightarrow> string" where
  "py_lower s = map py_lower_char s"

definition py_upper :: "string \<Rightarrow> string" where
  "py_upper s = map py_upper_char s"

text \<open>\<open>sub in s\<close> on strings: \<open>sub\<close> occurs in \<open>s\<close> as a contiguous block.\<close>

fun py_in :: "string \<Rightarrow> string \<Rightarrow> bool" where
  "py_in sub [] = (sub = [])"
| "py_in sub (c # cs) = (prefix sub (c # cs) \<or> py_in sub cs)"

text \<open>\<open>s.strip()\<close>: leading and trailing whitespace removed.\<close>

definition py_strip :: "string \<Rightarrow> string" where
  "py_strip s = rev (dropWhile py_isspace (rev (dropWhile py_isspace s)))"

text \<open>\<open>s.split(sep)\<close> for a one-character separator; the result is never empty.\<close>

fun py_split :: "char \<Rightarrow> string \<Rightarrow> string list" where
  "py_split sep [] = ['''']"
| "py_split sep (c # cs) =
     (if c = sep then [] # py_split sep cs
      else (case py_split sep cs of
              [] \<Rightarrow> [c # []]
            | w # ws \<Rightarrow> (c # w) # ws))"

text \<open>\<open>int(s)\<close> on a string of decimal digits.\<close>

definition digit_val :: "char \<Rightarrow> int" where
  "digit_val c = int (of_char c) - 48"

definition py_int :: "string \<Rightarrow> int" where
  "py_int s = foldl (\<lambda>acc c. 10 * acc + digit_val c) 0 s"

section \<open>Regular expressions with backtracking\<close>

text \<open>
  The fragment of Python's \<open>re\<close> syntax used by \<open>LogProcessor.patterns\<close>: literals,
  character classes, greedy repetition of a class (\<open>?\<close>, \<open>*\<close>, \<open>+\<close>, \<open>{m,n}\<close>),
  concatenation, alternation, numbered groups and the word boundary \<open>\\b\<close>.
  The matcher lists every way to match from a position, in the order in which a
  backtracking engine tries them; the head of the list is the match Python reports.
\<close>

datatype rx =
    Lit string
  | Cls "char \<Rightarrow> bool"
  | Rep "char \<Rightarrow> bool" nat "nat option"
  | Seq rx rx
  | Alt rx rx
  | Grp nat rx
  | Bnd

type_synonym caps = "(nat \<times> nat \<times> nat) list"

definition lit_ok :: "bool \<Rightarrow> char \<Rightarrow> char \<Rightarrow> bool" where
  "lit_ok ic l x = (if ic then py_lower_char x = py_lower_char l else x = l)"

definition cls_ok :: "bool \<Rightarrow> (char \<Rightarrow> bool) \<Rightarrow> char \<Rightarrow> bool" where
  "cls_ok ic p x =
     (if ic then (if p x then True else if p (py_lower_char x) then True else p (py_upper_char x))
      else p x)"

text \<open>The literal \<open>l\<close> matches at the head of \<open>t\<close>.\<close>

fun lit_at :: "bool \<Rightarrow> string \<Rightarrow> string \<Rightarrow> bool" where
  "lit_at ic [] t = True"
| "lit_at ic (l # ls) [] = False"
| "lit_at ic (l # ls) (x # xs) = (if lit_ok ic l x then lit_at ic ls xs else False)"

definition word_at :: "string \<Rightarrow> nat \<Rightarrow> bool" where
  "word_at s i = (i < length s \<and> re_word (s ! i))"

definition at_boundary :: "string \<Rightarrow> nat \<Rightarrow> bool" where
  "at_boundary s i = ((i > 0 \<and> word_at s (i - 1)) \<noteq> word_at s i)"

definition rep_counts :: "bool \<Rightarrow> (char \<Rightarrow> bool) \<Rightarrow> nat \<Rightarrow> nat option \<Rightarrow> string \<Rightarrow> nat list" where
  "rep_counts ic p m n t =
     (let k = length (takeWhile (cls_ok ic p) t);
          k' = (case n of None \<Rightarrow> k | Some b \<Rightarrow> min k b)
      in rev [m..<Suc k'])"

fun rx_m :: "bool \<Rightarrow> string \<Rightarrow> rx \<Rightarrow> nat \<times> caps \<Rightarrow> (nat \<times> caps) list" where
  "rx_m ic s (Lit l) (i, g) = (if lit_at ic l (drop i s) then [(i + length l, g)] else [])"
| "rx_m ic s (Cls p) (i, g) =
     (if i < length s \<and> cls_ok ic p (s ! i) then [(Suc i, g)] else [])"
| "rx_m ic s (Rep p m n) (i, g) = map (\<lambda>j. (i + j, g)) (rep_counts ic p m n (drop i s))"
| "rx_m ic s (Seq a b) st = concat (map (rx_m ic s b) (rx_m ic s a st))"
| "rx_m ic s (Alt a b) st = rx_m ic s a st @ rx_m ic s b st"
| "rx_m ic s (Grp k r) (i, g) = map (\<lambda>(j, g'). (j, (k, i, j) # g')) (rx_m ic s r (i, g))"
| "rx_m ic s Bnd (i, g) = (if at_boundary s i then [(i, g)] else [])"

fun seqs :: "rx list \<Rightarrow> rx" where
  "seqs [] = Lit []"
| "seqs [r] = r"
| "seqs (r # rs) = Seq r (seqs rs)"

fun alts :: "rx list \<Rightarrow> rx" where
  "alts [] = Cls (\<lambda>_. False)"
| "alts [r] = r"
| "alts (r # rs) = Alt r (alts rs)"

record re_match =
  m_start :: nat
  m_end :: nat
  m_caps :: caps

text \<open>\<open>re.search\<close>: the first start position, from the left, at which the pattern matches.\<close>

fun first_match :: "bool \<Rightarrow> rx \<Rightarrow> string \<Rightarrow> nat list \<Rightarrow> re_match option" where
  "first_match ic r s [] = None"
| "first_match ic r s (i # is) =
     (case rx_m ic s r (i, []) of
        [] \<Rightarrow> first_match ic r s is
      | (j, g) # _ \<Rightarrow> Some \<lparr>m_start = i, m_end = j, m_caps = g\<rparr>)"

definition re_search :: "bool \<Rightarrow> rx \<Rightarrow> string \<Rightarrow> re_match option" where
  "re_search ic r s = first_match ic r s [0..<Suc (length s)]"

definition substr :: "string \<Rightarrow> nat \<Rightarrow> nat \<Rightarrow> string" where
  "substr s i j = take (j - i) (drop i s)"

definition group0 :: "string \<Rightarrow> re_match \<Rightarrow> string" where
  "group0 s m = substr s (m_start m) (m_end m)"

definition group :: "string \<Rightarrow> re_match \<Rightarrow> nat \<Rightarrow> string" where
  "group s m k = (case map_of (m_caps m) k of None \<Rightarrow> [] | Some (i, j) \<Rightarrow> substr s i j)"

section \<open>The patterns of \<open>LogProcessor\<close>\<close>

definition opt :: "(char \<Rightarrow> bool) \<Rightarrow> rx" where "opt p = Rep p 0 (Some 1)"
definition star :: "(char \<Rightarrow> bool) \<Rightarrow> rx" where "star p = Rep p 0 None"
definition plus :: "(char \<Rightarrow> bool) \<Rightarrow> rx" where "plus p = Rep p 1 None"
definition exactly :: "nat \<Rightarrow> (char \<Rightarrow> bool) \<Rightarrow> rx" where "exactly n p = Rep p n (Some n)"

definition one_of :: "string \<Rightarrow> char \<Rightarrow> bool" where
  "one_of cs c = (c \<in> set cs)"

definition ascii_upper :: "char \<Rightarrow> bool" where
  "ascii_upper c = in_range (CHR ''A'') (CHR ''Z'') c"

definition ascii_lower :: "char \<Rightarrow> bool" where
  "ascii_lower c = in_range (CHR ''a'') (CHR ''z'') c"

definition sep_class :: "char \<Rightarrow> bool" where
  "sep_class c = (one_of ''=:'' c \<or> py_isspace c)"

definition id_class :: "char \<Rightarrow> bool" where
  "id_class c = (ascii_lower c \<or> ascii_upper c \<or> re_digit c \<or> c = CHR ''-'')"

definition pat_timestamp :: rx where
  "pat_timestamp = seqs
     [exactly 4 re_digit, Lit ''-'', exactly 2 re_digit, Lit ''-'', exactly 2 re_digit,
      Cls (\<lambda>c. py_isspace c \<or> c = CHR ''T''),
      exactly 2 re_digit, Lit '':'', exactly 2 re_digit, Lit '':'', exactly 2 re_digit]"

definition pat_log_level :: rx where
  "pat_log_level = seqs
     [Bnd,
      Grp 1 (alts [Lit ''DEBUG'', Lit ''INFO'', Lit ''WARN'', Lit ''WARNING'', Lit ''ERROR'',
                   Lit ''FATAL'', Lit ''CRITICAL'']),
      Bnd]"

definition pat_api_endpoint :: rx where
  "pat_api_endpoint = seqs
     [Grp 1 (alts [Lit ''GET'', Lit ''POST'', Lit ''PUT'', Lit ''DELETE'', Lit ''PATCH'']),
      plus py_isspace,
      Grp 2 (Seq (Lit ''/'') (star (\<lambda>c. \<not> py_isspace c)))]"

definition pat_status_code :: rx where
  "pat_status_code = seqs
     [Bnd,
      Grp 1 (alts [Seq (Lit ''1'') (exactly 2 re_digit), Seq (Lit ''2'') (exactly 2 re_digit),
                   Seq (Lit ''3'') (exactly 2 re_digit), Seq (Lit ''4'') (exactly 2 re_digit),
                   Seq (Lit ''5'') (exactly 2 re_digit)]),
      Bnd]"

definition pat_user_id :: rx where
  "pat_user_id = seqs
     [Lit ''user'', opt (one_of ''_-''), Lit ''id'', plus sep_class,
      Grp 1 (plus (\<lambda>c. \<not> (py_isspace c \<or> c = CHR '','')))]"

definition pat_username :: rx where
  "pat_username = seqs
     [Lit ''username'', plus sep_class,
      Grp 1 (plus (\<lambda>c. \<not> (py_isspace c \<or> c = CHR '','')))]"

definition pat_email :: rx where
  "pat_email = seqs
     [Bnd,
      plus (\<lambda>c. ascii_upper c \<or> ascii_lower c \<or> re_digit c \<or> one_of ''._%+-'' c),
      Lit ''@'',
      plus (\<lambda>c. ascii_upper c \<or> ascii_lower c \<or> re_digit c \<or> one_of ''.-'' c),
      Lit ''.'',
      Rep (\<lambda>c. ascii_upper c \<or> c = CHR ''|'' \<or> ascii_lower c) 2 None,
      Bnd]"

definition pat_trace_id :: rx where
  "pat_trace_id = seqs
     [Lit ''trace'', opt (one_of ''_-''), Lit ''id'', plus sep_class, Grp 1 (plus id_class)]"

definition pat_request_id :: rx where
  "pat_request_id = seqs
     [Lit ''request'', opt (one_of ''_-''), Lit ''id'', plus sep_class, Grp 1 (plus id_class)]"

definition pat_session_id :: rx where
  "pat_session_id = seqs
     [Lit ''session'', opt (one_of ''_-''), Lit ''id'', plus sep_class, Grp 1 (plus id_class)]"

definition pat_ip_address :: rx where
  "pat_ip_address = seqs
     [Bnd,
      Seq (Rep re_digit 1 (Some 3)) (Lit ''.''),
      Seq (Rep re_digit 1 (Some 3)) (Lit ''.''),
      Seq (Rep re_digit 1 (Some 3)) (Lit ''.''),
      Rep re_digit 1 (Some 3),
      Bnd]"

definition pat_exception :: rx where
  "pat_exception = Grp 1 (alts [Lit ''Exception'', Lit ''Error'', Lit ''Traceback''])"

text \<open>The pattern local to \<open>_extract_exception\<close>.\<close>

definition exception_pattern :: rx where
  "exception_pattern =
     Grp 1 (Alt (Seq (plus re_word) (Lit ''Exception'')) (Seq (plus re_word) (Lit ''Error'')))"

section \<open>Log entries and the processor state\<close>

record log_entry =
  line_number :: nat
  raw :: string
  timestamp :: "string option"
  level :: string
  api :: "(string \<times> string) option"
  status_code :: "int option"
  identifiers :: "(string \<times> string) list"
  has_error :: bool
  exception_type :: "string option"

text \<open>
  The attributes of a \<open>LogProcessor\<close> instance. \<open>user_sessions\<close> is a dictionary
  from identifier value to a list of entries; dictionaries are association lists in
  insertion order, which is the order in which Python iterates them.
\<close>

record log_processor =
  logs :: "log_entry list"
  user_sessions :: "(string \<times> log_entry list) list"
  errors :: "log_entry list"
  api_calls :: "log_entry list"

text \<open>\<open>LogProcessor()\<close>: the state after \<open>__init__\<close>.\<close>

definition init :: log_processor where
  "init = \<lparr>logs = [], user_sessions = [], errors = [], api_calls = []\<rparr>"

text \<open>
  Python truthiness is written out where the source tests a value: an optional integer
  is true when present and non-zero, an optional string when present and non-empty, an
  optional dictionary with fixed keys when present.
\<close>

text \<open>\<open>d[k].append(v)\<close> on a \<open>defaultdict(list)\<close>, and \<open>d[k] += 1\<close> on a \<open>defaultdict(int)\<close>.\<close>

definition bucket :: "('k \<times> 'v list) list \<Rightarrow> 'k \<Rightarrow> 'v list" where
  "bucket d k = (case map_of d k of None \<Rightarrow> [] | Some b \<Rightarrow> b)"

definition dict_append :: "'k \<Rightarrow> 'v \<Rightarrow> ('k \<times> 'v list) list \<Rightarrow> ('k \<times> 'v list) list" where
  "dict_append k v d = AList.update k (bucket d k @ [v]) d"

definition dict_incr :: "'k \<Rightarrow> ('k \<times> nat) list \<Rightarrow> ('k \<times> nat) list" where
  "dict_incr k d = AList.update k (Suc (case map_of d k of None \<Rightarrow> 0 | Some n \<Rightarrow> n)) d"

section \<open>Field extraction\<close>

definition extract_timestamp :: "string \<Rightarrow> string option" where
  "extract_timestamp line =
     (case re_search False pat_timestamp line of
        Some m \<Rightarrow> Some (group0 line m)
      | None \<Rightarrow> None)"

definition extract_log_level :: "string \<Rightarrow> string" where
  "extract_log_level line =
     (case re_search True pat_log_level line of
        Some m \<Rightarrow> py_upper (group line m 1)
      | None \<Rightarrow> ''INFO'')"

definition extract_api_call :: "string \<Rightarrow> (string \<times> string) option" where
  "extract_api_call line =
     (case re_search False pat_api_endpoint line of
        Some m \<Rightarrow> Some (group line m 1, group line m 2)
      | None \<Rightarrow> None)"

definition extract_status_code :: "string \<Rightarrow> int option" where
  "extract_status_code line =
     (case re_search False pat_status_code line of
        Some m \<Rightarrow>
          (let code = py_int (group line m 1)
           in if 100 \<le> code \<and> code \<le> 599 then Some code else None)
      | None \<Rightarrow> None)"

definition identifier_patterns :: "(string \<times> rx) list" where
  "identifier_patterns =
     [(''user_id'', pat_user_id), (''username'', pat_username), (''email'', pat_email),
      (''trace_id'', pat_trace_id), (''request_id'', pat_request_id),
      (''session_id'', pat_session_id), (''ip_address'', pat_ip_address)]"

definition identifier_step ::
  "string \<Rightarrow> (string \<times> string) list \<Rightarrow> string \<times> rx \<Rightarrow> (string \<times> string) list" where
  "identifier_step line ids kp =
     (case re_search True (snd kp) line of
        Some m \<Rightarrow>
          (if fst kp \<in> set [''user_id'', ''username'', ''trace_id'', ''request_id'', ''session_id'']
           then AList.update (fst kp) (group line m 1) ids
           else AList.update (fst kp) (group0 line m) ids)
      | None \<Rightarrow> ids)"

definition extract_identifiers :: "string \<Rightarrow> (string \<times> string) list" where
  "extract_identifiers line = foldl (identifier_step line) [] identifier_patterns"

text \<open>\<open>bool(m)\<close> for the result of a search: a match object is true, \<open>None\<close> is false.\<close>

definition is_match :: "re_match option \<Rightarrow> bool" where
  "is_match m = (case m of None \<Rightarrow> False | Some _ \<Rightarrow> True)"

definition has_error_line :: "string \<Rightarrow> bool" where
  "has_error_line line =
     (is_match (re_search True pat_exception line)
      \<or> py_in ''error'' (py_lower line) \<or> py_in ''exception'' (py_lower line))"

definition extract_exception :: "string \<Rightarrow> string option" where
  "extract_exception line =
     (case re_search False exception_pattern line of
        Some m \<Rightarrow> Some (group line m 1)
      | None \<Rightarrow> None)"

section \<open>\<open>parse_logs\<close>\<close>

definition make_entry :: "nat \<Rightarrow> string \<Rightarrow> log_entry" where
  "make_entry idx line =
     \<lparr>line_number = idx + 1,
      raw = line,
      timestamp = extract_timestamp line,
      level = extract_log_level line,
      api = extract_api_call line,
      status_code = extract_status_code line,
      identifiers = extract_identifiers line,
      has_error = has_error_line line,
      exception_type = extract_exception line\<rparr>"

definition track_identifier :: "log_entry \<Rightarrow> log_processor \<Rightarrow> string \<times> string \<Rightarrow> log_processor" where
  "track_identifier e self kv =
     (if snd kv \<noteq> [] then self\<lparr>user_sessions := dict_append (snd kv) e (user_sessions self)\<rparr>
      else self)"

definition track_entry :: "log_entry \<Rightarrow> log_processor \<Rightarrow> log_processor" where
  "track_entry e self =
     (let self1 = (if has_error e then self\<lparr>errors := errors self @ [e]\<rparr> else self);
          self2 = (if api e \<noteq> None then self1\<lparr>api_calls := api_calls self1 @ [e]\<rparr> else self1)
      in foldl (track_identifier e) self2 (identifiers e))"

text \<open>The body of the \<open>for idx, line in enumerate(lines)\<close> loop.\<close>

fun parse_loop ::
  "(nat \<times> string) list \<Rightarrow> log_entry list \<times> log_processor \<Rightarrow> log_entry list \<times> log_processor" where
  "parse_loop [] acc = acc"
| "parse_loop ((idx, line) # rest) (parsed_logs, self) =
     (if py_strip line = [] then parse_loop rest (parsed_logs, self)
      else (let log_entry = make_entry idx line
            in parse_loop rest (parsed_logs @ [log_entry], track_entry log_entry self)))"

text \<open>\<open>parse_logs\<close> returns the parsed entries and the updated instance.\<close>

definition parse_logs :: "string \<Rightarrow> log_processor \<Rightarrow> log_entry list \<times> log_processor" where
  "parse_logs content self =
     (let lines = py_split CHR 0x0A content;
          (parsed_logs, self') = parse_loop (enumerate 0 lines) ([], self)
      in (parsed_logs, self'\<lparr>logs := parsed_logs\<rparr>))"

section \<open>Journeys\<close>

definition journey_match :: "string \<Rightarrow> log_entry \<Rightarrow> bool" where
  "journey_match user_identifier log =
     list_ex (\<lambda>v. v \<noteq> [] \<and> py_in (py_lower user_identifier) (py_lower v))
       (map snd (identifiers log))"

definition collect_user_logs :: "log_processor \<Rightarrow> string \<Rightarrow> log_entry list" where
  "collect_user_logs self user_identifier =
     concat (map (\<lambda>logs. filter (journey_match user_identifier) logs)
                 (map snd (user_sessions self)))"

definition timestamp_key :: "log_entry \<Rightarrow> string" where
  "timestamp_key x = (case timestamp x of None \<Rightarrow> [] | Some t \<Rightarrow> if t \<noteq> [] then t else [])"

definition get_user_journey :: "log_processor \<Rightarrow> string \<Rightarrow> log_entry list" where
  "get_user_journey self user_identifier =
     sort_key timestamp_key (collect_user_logs self user_identifier)"

record error_sequence =
  total_requests :: nat
  successful_requests :: "log_entry list"
  failed_requests :: "log_entry list"
  first_error :: "log_entry option"
  last_successful_api :: "(string \<times> string) option"
  error_apis :: "(string \<times> string) list"

definition is_failed :: "log_entry \<Rightarrow> bool" where
  "is_failed log =
     (has_error log \<or> (case status_code log of None \<Rightarrow> False | Some c \<Rightarrow> c \<noteq> 0 \<and> c \<ge> 400))"

definition sequence_step :: "error_sequence \<Rightarrow> log_entry \<Rightarrow> error_sequence" where
  "sequence_step result log =
     (if is_failed log then
        (let r1 = result\<lparr>failed_requests := failed_requests result @ [log]\<rparr>;
             r2 = (if first_error r1 = None then r1\<lparr>first_error := Some log\<rparr> else r1)
         in case api log of
              Some a \<Rightarrow> r2\<lparr>error_apis := error_apis r2 @ [a]\<rparr>
            | None \<Rightarrow> r2)
      else
        (let r1 = result\<lparr>successful_requests := successful_requests result @ [log]\<rparr>
         in case api log of
              Some a \<Rightarrow> r1\<lparr>last_successful_api := Some a\<rparr>
            | None \<Rightarrow> r1))"

definition find_error_sequence :: "log_processor \<Rightarrow> string \<Rightarrow> error_sequence option" where
  "find_error_sequence self user_identifier =
     (let user_logs = get_user_journey self user_identifier
      in if user_logs = [] then None
         else Some (foldl sequence_step
                 \<lparr>total_requests = length user_logs, successful_requests = [],
                  failed_requests = [], first_error = None, last_successful_api = None,
                  error_apis = []\<rparr> user_logs))"

section \<open>Aggregates\<close>

record statistics =
  total_logs :: nat
  stat_errors :: nat
  warnings :: nat
  stat_api_calls :: nat
  unique_users :: nat
  status_codes :: "(int \<times> nat) list"

definition count_status :: "(int \<times> nat) list \<Rightarrow> log_entry \<Rightarrow> (int \<times> nat) list" where
  "count_status d log =
     (case status_code log of
        None \<Rightarrow> d
      | Some c \<Rightarrow> if c \<noteq> 0 then dict_incr c d else d)"

definition get_statistics :: "log_processor \<Rightarrow> statistics" where
  "get_statistics self =
     \<lparr>total_logs = length (logs self),
      stat_errors = length (filter has_error (logs self)),
      warnings = length (filter (\<lambda>l. level l = ''WARN'') (logs self)),
      stat_api_calls = length (api_calls self),
      unique_users = length (user_sessions self),
      status_codes = foldl count_status [] (logs self)\<rparr>"

definition get_all_users :: "log_processor \<Rightarrow> string list" where
  "get_all_users self = map fst (user_sessions self)"

record api_stat =
  total_calls :: nat
  successful :: nat
  failed :: nat
  stat_exceptions :: "string list"

definition api_stat_default :: api_stat where
  "api_stat_default = \<lparr>total_calls = 0, successful = 0, failed = 0, stat_exceptions = []\<rparr>"

definition endpoint_key :: "string \<times> string \<Rightarrow> string" where
  "endpoint_key a = fst a @ '' '' @ snd a"

definition is_success_call :: "log_entry \<Rightarrow> bool" where
  "is_success_call log =
     (case status_code log of None \<Rightarrow> False | Some c \<Rightarrow> c \<noteq> 0 \<and> c < 400)"

definition summary_update :: "log_entry \<Rightarrow> api_stat \<Rightarrow> api_stat" where
  "summary_update log st =
     (let st1 = st\<lparr>total_calls := total_calls st + 1\<rparr>
      in if is_success_call log then st1\<lparr>successful := successful st1 + 1\<rparr>
         else if is_failed log then
           (let st2 = st1\<lparr>failed := failed st1 + 1\<rparr>
            in case exception_type log of
                 None \<Rightarrow> st2
               | Some x \<Rightarrow>
                   if x \<noteq> [] then st2\<lparr>stat_exceptions := stat_exceptions st2 @ [x]\<rparr> else st2)
         else st1)"

definition summary_step :: "(string \<times> api_stat) list \<Rightarrow> log_entry \<Rightarrow> (string \<times> api_stat) list" where
  "summary_step api_stats log =
     (case api log of
        Some a \<Rightarrow>
          (let endpoint = endpoint_key a;
               cur = (case map_of api_stats endpoint of None \<Rightarrow> api_stat_default | Some st \<Rightarrow> st)
           in AList.update endpoint (summary_update log cur) api_stats)
      | None \<Rightarrow> api_stats)"

definition get_api_summary :: "log_processor \<Rightarrow> (string \<times> api_stat) list" where
  "get_api_summary self = foldl summary_step [] (api_calls self)"

record error_patterns =
  most_common_exceptions :: "(string \<times> nat) list"
  most_failed_apis :: "(string \<times> nat) list"
  error_by_status_code :: "(int \<times> nat) list"
  affected_users :: "string set"

definition patterns_step :: "error_patterns \<Rightarrow> log_entry \<Rightarrow> error_patterns" where
  "patterns_step ep log =
     (let ep1 = (case exception_type log of
                   None \<Rightarrow> ep
                 | Some x \<Rightarrow>
                     if x \<noteq> []
                     then ep\<lparr>most_common_exceptions := dict_incr x (most_common_exceptions ep)\<rparr>
                     else ep);
          ep2 = (case api log of
                   Some a \<Rightarrow> ep1\<lparr>most_failed_apis := dict_incr (endpoint_key a) (most_failed_apis ep1)\<rparr>
                 | None \<Rightarrow> ep1);
          ep3 = (case status_code log of
                   None \<Rightarrow> ep2
                 | Some c \<Rightarrow>
                     if c \<noteq> 0
                     then ep2\<lparr>error_by_status_code := dict_incr c (error_by_status_code ep2)\<rparr>
                     else ep2)
      in ep3\<lparr>affected_users :=
               affected_users ep3 \<union> {v. v \<in> set (map snd (identifiers log)) \<and> v \<noteq> []}\<rparr>)"

definition find_common_patterns :: "log_processor \<Rightarrow> error_patterns" where
  "find_common_patterns self =
     foldl patterns_step
       \<lparr>most_common_exceptions = [], most_failed_apis = [], error_by_status_code = [],
        affected_users = {}\<rparr> (errors self)"

section \<open>Derived descriptions of the parse loop\<close>

text \<open>
  The entries that one pass of the loop produces, and the effect of one entry on the
  identifier index, written as list functions. The lemmas below show that the loop
  computes them.
\<close>

definition nonblank :: "nat \<times> string \<Rightarrow> bool" where
  "nonblank il = (py_strip (snd il) \<noteq> [])"

definition entries_of :: "(nat \<times> string) list \<Rightarrow> log_entry list" where
  "entries_of xs = map (\<lambda>il. make_entry (fst il) (snd il)) (filter nonblank xs)"

definition doc_lines :: "string \<Rightarrow> string list" where
  "doc_lines content = py_split CHR 0x0A content"

definition doc_entries :: "string \<Rightarrow> log_entry list" where
  "doc_entries content = entries_of (enumerate 0 (doc_lines content))"

definition index_entry ::
  "(string \<times> log_entry list) list \<Rightarrow> log_entry \<Rightarrow> (string \<times> log_entry list) list" where
  "index_entry d e =
     foldl (\<lambda>d kv. if snd kv \<noteq> [] then dict_append (snd kv) e d else d) d (identifiers e)"

section \<open>Example documents\<close>

definition doc_warn :: string where
  "doc_warn = ''WARN a'' @ [CHR 0x0A] @ ''WARNING b''"

definition doc_blank_first :: string where
  "doc_blank_first = [CHR 0x0A] @ ''a''"

definition doc_same_value :: string where
  "doc_same_value = ''user_id=abc username=abc''"

definition doc_ok_error :: string where
  "doc_ok_error = ''GET /a 200 error''"

definition line_get :: string where
  "line_get = ''user_id=abc GET /a''"

definition line_ok :: string where
  "line_ok = ''user_id=abc ok''"

definition doc_two_success :: string where
  "doc_two_success = line_get @ [CHR 0x0A] @ line_ok"

definition doc_get :: string where
  "doc_get = ''GET /a''"

definition line_bare_error :: string where
  "line_bare_error = ''Error: connection refused''"

definition line_npe :: string where
  "line_npe = ''NullPointerException raised''"

definition line_600 :: string where
  "line_600 = ''code=600''"

definition line_099 :: string where
  "line_099 = ''id 099 done''"

section \<open>Reading the per-endpoint summary\<close>

text \<open>
  The success and failure conditions in the words of the specification, and the calls
  that belong to one \<open>METHOD endpoint\<close> key.
\<close>

definition spec_successful :: "log_entry \<Rightarrow> bool" where
  "spec_successful e = (case status_code e of None \<Rightarrow> False | Some c \<Rightarrow> c < 400)"

definition spec_failed :: "log_entry \<Rightarrow> bool" where
  "spec_failed e = (has_error e \<or> (case status_code e of None \<Rightarrow> False | Some c \<Rightarrow> c \<ge> 400))"

definition call_key :: "log_entry \<Rightarrow> string option" where
  "call_key e = (case api e of None \<Rightarrow> None | Some a \<Rightarrow> Some (endpoint_key a))"

definition calls_for :: "string \<Rightarrow> log_entry list \<Rightarrow> log_entry list" where
  "calls_for k es = filter (\<lambda>e. call_key e = Some k) es"

definition exception_list :: "log_entry \<Rightarrow> string list" where
  "exception_list e = (case exception_type e of None \<Rightarrow> [] | Some x \<Rightarrow> if x \<noteq> [] then [x] else [])"

definition counted_failed :: "log_entry \<Rightarrow> bool" where
  "counted_failed e = (is_failed e \<and> \<not> is_success_call e)"

section \<open>Reading the error sequence\<close>

definition or_else :: "'a option \<Rightarrow> 'a option \<Rightarrow> 'a option" where
  "or_else a b = (case a of None \<Rightarrow> b | Some x \<Rightarrow> Some x)"

definition api_of :: "log_entry \<Rightarrow> (string \<times> string) list" where
  "api_of e = (case api e of None \<Rightarrow> [] | Some a \<Rightarrow> [a])"

definition api_list :: "log_entry list \<Rightarrow> (string \<times> string) list" where
  "api_list es = concat (map api_of es)"

definition last_option :: "'a list \<Rightarrow> 'a option" where
  "last_option xs = (case rev xs of [] \<Rightarrow> None | x # _ \<Rightarrow> Some x)"

section \<open>Reading the exception type\<close>

text \<open>
  Some word character stands immediately before an occurrence of \<open>suf\<close> in the line.
\<close>

definition word_before :: "string \<Rightarrow> string \<Rightarrow> bool" where
  "word_before suf line =
     list_ex (\<lambda>i. word_at line i \<and> prefix suf (drop (Suc i) line)) [0..<length line]"

section \<open>The alternatives of the status-code pattern\<close>

definition status_digits :: rx where
  "status_digits =
     alts [Seq (Lit ''1'') (exactly 2 re_digit), Seq (Lit ''2'') (exactly 2 re_digit),
           Seq (Lit ''3'') (exactly 2 re_digit), Seq (Lit ''4'') (exactly 2 re_digit),
           Seq (Lit ''5'') (exactly 2 re_digit)]"

section \<open>Measures of a pattern\<close>

text \<open>
  The least number of characters a pattern consumes, whether every group of a pattern
  consumes at least \<open>n\<close> characters, and whether every match of a pattern records
  group \<open>k\<close>.
\<close>

fun min_len :: "rx \<Rightarrow> nat" where
  "min_len (Lit l) = length l"
| "min_len (Cls p) = 1"
| "min_len (Rep p m n) = m"
| "min_len (Seq a b) = min_len a + min_len b"
| "min_len (Alt a b) = min (min_len a) (min_len b)"
| "min_len (Grp k r) = min_len r"
| "min_len Bnd = 0"

fun groups_wide :: "nat \<Rightarrow> rx \<Rightarrow> bool" where
  "groups_wide n (Seq a b) = (groups_wide n a \<and> groups_wide n b)"
| "groups_wide n (Alt a b) = (groups_wide n a \<and> groups_wide n b)"
| "groups_wide n (Grp k r) = (n \<le> min_len r \<and> groups_wide n r)"
| "groups_wide n r = True"

fun captures :: "nat \<Rightarrow> rx \<Rightarrow> bool" where
  "captures k (Seq a b) = (captures k a \<or> captures k b)"
| "captures k (Alt a b) = (captures k a \<and> captures k b)"
| "captures k (Grp k' r) = (k = k' \<or> captures k r)"
| "captures k r = False"

definition value_pattern_ok :: "string \<times> rx \<Rightarrow> bool" where
  "value_pattern_ok kp =
     (if fst kp \<in> set [''user_id'', ''username'', ''trace_id'', ''request_id'', ''session_id'']
      then groups_wide 1 (snd kp) \<and> captures 1 (snd kp) else 1 \<le> min_len (snd kp))"

section \<open>Reading the journey\<close>

text \<open>
  The sort key in the words of the specification (an absent timestamp counts as the
  empty string), the entries that carry some identifier, and the set of entries held in
  some bucket of the index.
\<close>

definition timestamp_or_empty :: "log_entry \<Rightarrow> string" where
  "timestamp_or_empty e = (case timestamp e of None \<Rightarrow> [] | Some t \<Rightarrow> t)"

definition has_identifier :: "log_entry \<Rightarrow> bool" where
  "has_identifier e = list_ex (\<lambda>kv. snd kv \<noteq> []) (identifiers e)"

definition indexed :: "(string \<times> log_entry list) list \<Rightarrow> log_entry set" where
  "indexed d = set (concat (map snd d))"

section \<open>The error flag on arbitrary text\<close>

text \<open>
  A line of arbitrary text is a list of code points. Two tables of Python's library are
  not part of the program and are taken as parameters: \<open>ci p x\<close> says that under
  \<open>re.IGNORECASE\<close> the pattern character \<open>p\<close> matches the code point \<open>x\<close>, and
  \<open>lower\<close> is \<open>str.lower\<close>. The pattern \<open>(Exception|Error|Traceback)\<close> consists of
  literals, alternation and a group; the matcher for this fragment works as \<open>rx_m\<close>
  does. \<open>ci_latin1\<close> and \<open>lower_latin1\<close> are the two tables on the code points 0..255.
\<close>

type_synonym ustring = "nat list"

definition ustr :: "string \<Rightarrow> ustring" where
  "ustr s = map of_char s"

datatype lrx = LLit string | LAlt lrx lrx | LGrp nat lrx

fun llit_at :: "(char \<Rightarrow> nat \<Rightarrow> bool) \<Rightarrow> string \<Rightarrow> ustring \<Rightarrow> bool" where
  "llit_at ci [] t = True"
| "llit_at ci (l # ls) [] = False"
| "llit_at ci (l # ls) (x # xs) = (if ci l x then llit_at ci ls xs else False)"

fun lrx_m :: "(char \<Rightarrow> nat \<Rightarrow> bool) \<Rightarrow> ustring \<Rightarrow> lrx \<Rightarrow> nat \<times> caps \<Rightarrow> (nat \<times> caps) list" where
  "lrx_m ci s (LLit l) (i, g) = (if llit_at ci l (drop i s) then [(i + length l, g)] else [])"
| "lrx_m ci s (LAlt a b) st = lrx_m ci s a st @ lrx_m ci s b st"
| "lrx_m ci s (LGrp k r) (i, g) = map (\<lambda>(j, g'). (j, (k, i, j) # g')) (lrx_m ci s r (i, g))"

fun lfirst_match :: "(char \<Rightarrow> nat \<Rightarrow> bool) \<Rightarrow> lrx \<Rightarrow> ustring \<Rightarrow> nat list \<Rightarrow> re_match option" where
  "lfirst_match ci r s [] = None"
| "lfirst_match ci r s (i # is) =
     (case lrx_m ci s r (i, []) of
        [] \<Rightarrow> lfirst_match ci r s is
      | (j, g) # _ \<Rightarrow> Some \<lparr>m_start = i, m_end = j, m_caps = g\<rparr>)"

definition lre_search :: "(char \<Rightarrow> nat \<Rightarrow> bool) \<Rightarrow> lrx \<Rightarrow> ustring \<Rightarrow> re_match option" where
  "lre_search ci r s = lfirst_match ci r s [0..<Suc (length s)]"

definition upat_exception :: lrx where
  "upat_exception = LGrp 1 (LAlt (LLit ''Exception'') (LAlt (LLit ''Error'') (LLit ''Traceback'')))"

fun u_in :: "ustring \<Rightarrow> ustring \<Rightarrow> bool" where
  "u_in sub [] = (sub = [])"
| "u_in sub (c # cs) = (prefix sub (c # cs) \<or> u_in sub cs)"

definition has_error_u :: "(char \<Rightarrow> nat \<Rightarrow> bool) \<Rightarrow> (ustring \<Rightarrow> ustring) \<Rightarrow> ustring \<Rightarrow> bool" where
  "has_error_u ci lower line =
     (is_match (lre_search ci upat_exception line)
      \<or> u_in (ustr ''error'') (lower line) \<or> u_in (ustr ''exception'') (lower line))"

definition ci_latin1 :: "char \<Rightarrow> nat \<Rightarrow> bool" where
  "ci_latin1 p x = (x < 256 \<and> py_lower_char (char_of x) = py_lower_char p)"

definition lower_latin1 :: "ustring \<Rightarrow> ustring" where
  "lower_latin1 s = map (\<lambda>x. of_char (py_lower_char (char_of x))) s"

section \<open>The parse loop in closed form\<close>

lemma track_identifier_fold:
  "foldl (track_identifier e) self kvs =
     self\<lparr>user_sessions :=
            foldl (\<lambda>d kv. if snd kv \<noteq> [] then dict_append (snd kv) e d else d)
              (user_sessions self) kvs\<rparr>"
  by (induction kvs arbitrary: self) (simp_all add: track_identifier_def)

lemma track_entry_eq:
  "track_entry e self =
     self\<lparr>errors := errors self @ (if has_error e then [e] else []),
          api_calls := api_calls self @ (if api e \<noteq> None then [e] else []),
          user_sessions := index_entry (user_sessions self) e\<rparr>"
  by (simp add: track_entry_def Let_def track_identifier_fold index_entry_def)

lemma track_entries_eq:
  "foldl (\<lambda>s e. track_entry e s) self es =
     self\<lparr>errors := errors self @ filter has_error es,
          api_calls := api_calls self @ filter (\<lambda>e. api e \<noteq> None) es,
          user_sessions := foldl index_entry (user_sessions self) es\<rparr>"
  by (induction es arbitrary: self) (simp_all add: track_entry_eq)

lemma parse_loop_eq:
  "parse_loop xs (p, self) =
     (p @ entries_of xs, foldl (\<lambda>s e. track_entry e s) self (entries_of xs))"
  by (induction xs arbitrary: p self) (auto simp: entries_of_def nonblank_def Let_def)

lemma parse_logs_eq:
  "parse_logs content self =
     (doc_entries content,
      \<lparr>logs = doc_entries content,
       user_sessions = foldl index_entry (user_sessions self) (doc_entries content),
       errors = errors self @ filter has_error (doc_entries content),
       api_calls = api_calls self @ filter (\<lambda>e. api e \<noteq> None) (doc_entries content)\<rparr>)"
  by (simp add: parse_logs_def Let_def parse_loop_eq track_entries_eq doc_entries_def
      doc_lines_def)

lemma bucket_dict_append:
  "bucket (dict_append k e d) v = (if v = k then bucket d v @ [e] else bucket d v)"
  by (simp add: bucket_def dict_append_def update_conv')

lemma bucket_index_fold:
  "bucket (foldl (\<lambda>d kv. if snd kv \<noteq> [] then dict_append (snd kv) e d else d) d kvs) v =
     bucket d v @ map (\<lambda>_. e) (filter (\<lambda>kv. snd kv \<noteq> [] \<and> snd kv = v) kvs)"
  by (induction kvs arbitrary: d) (auto simp: bucket_dict_append)

lemma bucket_index_entry:
  "bucket (index_entry d e) v =
     bucket d v @ map (\<lambda>_. e) (filter (\<lambda>kv. snd kv \<noteq> [] \<and> snd kv = v) (identifiers e))"
  by (simp add: index_entry_def bucket_index_fold)

lemma bucket_index_entries:
  "bucket (foldl index_entry d es) v =
     bucket d v @
     concat (map (\<lambda>e. map (\<lambda>_. e)
                    (filter (\<lambda>kv. snd kv \<noteq> [] \<and> snd kv = v) (identifiers e))) es)"
  by (induction es arbitrary: d) (simp_all add: bucket_index_entry)

lemma entries_of_Nil: "entries_of [] = []"
  by (simp add: entries_of_def)

lemma entries_of_Cons:
  "entries_of ((i, l) # xs) =
     (if py_strip l = [] then entries_of xs else make_entry i l # entries_of xs)"
  by (simp add: entries_of_def nonblank_def)

lemma entries_pairs:
  "map (\<lambda>e. (line_number e, raw e)) (entries_of (enumerate n xs)) =
     filter (\<lambda>il. py_strip (snd il) \<noteq> []) (enumerate (Suc n) xs)"
  by (induction xs arbitrary: n) (simp_all add: entries_of_Nil entries_of_Cons make_entry_def)

lemma map_snd_filter_enumerate:
  "map snd (filter (\<lambda>il. P (snd il)) (enumerate n xs)) = filter P xs"
  by (induction xs arbitrary: n) simp_all

lemma enumerate_fst_sorted: "sorted_wrt (<) (map fst (enumerate n xs))"
  by (simp add: enumerate_eq_zip)

lemma sorted_wrt_map_filter:
  "sorted_wrt (<) (map f xs) \<Longrightarrow> sorted_wrt (<) (map f (filter P xs))"
  by (induction xs) auto

lemma line_numbers_ascending:
  "sorted_wrt (<) (map line_number (entries_of (enumerate n xs)))"
proof -
  have "map line_number (entries_of (enumerate n xs)) =
        map fst (map (\<lambda>e. (line_number e, raw e)) (entries_of (enumerate n xs)))"
    by (simp add: comp_def)
  also have "\<dots> = map fst (filter (\<lambda>il. py_strip (snd il) \<noteq> []) (enumerate (Suc n) xs))"
    by (simp only: entries_pairs)
  finally show ?thesis
    using sorted_wrt_map_filter [OF enumerate_fst_sorted] by simp
qed

lemma warn_lines: "doc_lines doc_warn = [''WARN a'', ''WARNING b'']"
  by (simp add: doc_lines_def doc_warn_def)
lemma warn_level_1: "extract_log_level ''WARN a'' = ''WARN''"
  by code_simp
lemma warn_level_2: "extract_log_level ''WARNING b'' = ''WARNING''"
  by code_simp
lemma warn_nonblank: "py_strip ''WARN a'' \<noteq> []" "py_strip ''WARNING b'' \<noteq> []"
  by code_simp+
lemma warn_levels: "map level (doc_entries doc_warn) = [''WARN'', ''WARNING'']"
  by (simp add: doc_entries_def warn_lines entries_of_Cons entries_of_Nil warn_nonblank make_entry_def
      warn_level_1 warn_level_2)

section \<open>Statistics\<close>

text \<open>
  Claim C7. The \<open>warnings\<close> count of \<open>get_statistics\<close> is the number of non-blank
  lines whose extracted level is \<open>WARN\<close>; entries whose level is \<open>WARNING\<close> are
  not counted (removing them leaves the count unchanged); and on the document with one
  \<open>WARN\<close> line and one \<open>WARNING\<close> line the count is 1.
\<close>

theorem C7_warnings_count:
  "warnings (get_statistics (snd (parse_logs content self))) =
     length (filter (\<lambda>l. extract_log_level l = ''WARN'')
               (filter (\<lambda>l. py_strip l \<noteq> []) (py_split CHR 0x0A content)))
   \<and> warnings (get_statistics (self\<lparr>logs := filter (\<lambda>e. level e \<noteq> ''WARNING'') (logs self)\<rparr>)) =
       warnings (get_statistics self)
   \<and> map level (fst (parse_logs doc_warn init)) = [''WARN'', ''WARNING'']
   \<and> warnings (get_statistics (snd (parse_logs doc_warn init))) = 1"
proof -
  have raws: "map raw (doc_entries content) = filter (\<lambda>l. py_strip l \<noteq> []) (py_split CHR 0x0A content)"
  proof -
    have "map raw (doc_entries content) =
          map snd (map (\<lambda>e. (line_number e, raw e)) (doc_entries content))"
      by (simp add: comp_def)
    also have "\<dots> = map snd (filter (\<lambda>il. py_strip (snd il) \<noteq> []) (enumerate 1 (py_split CHR 0x0A content)))"
      by (simp only: doc_entries_def doc_lines_def entries_pairs One_nat_def)
    finally show ?thesis
      using map_snd_filter_enumerate [of "\<lambda>l. py_strip l \<noteq> []" 1 "py_split CHR 0x0A content"]
      by simp
  qed
  have levs: "map level (doc_entries content) = map extract_log_level (map raw (doc_entries content))"
    by (simp add: doc_entries_def entries_of_def make_entry_def)
  have "length (filter (\<lambda>e. level e = ''WARN'') (doc_entries content)) =
        length (filter (\<lambda>l. l = ''WARN'') (map level (doc_entries content)))"
    by (simp add: filter_map comp_def)
  also have "\<dots> = length (filter (\<lambda>l. extract_log_level l = ''WARN'') (map raw (doc_entries content)))"
    by (simp only: levs) (simp add: filter_map comp_def)
  finally have a: "warnings (get_statistics (snd (parse_logs content self))) =
     length (filter (\<lambda>l. extract_log_level l = ''WARN'')
               (filter (\<lambda>l. py_strip l \<noteq> []) (py_split CHR 0x0A content)))"
    by (simp add: get_statistics_def parse_logs_eq raws)
  have b: "warnings (get_statistics (self\<lparr>logs := filter (\<lambda>e. level e \<noteq> ''WARNING'') (logs self)\<rparr>)) =
       warnings (get_statistics self)"
  proof -
    have "filter (\<lambda>l. level l = ''WARN'') (filter (\<lambda>e. level e \<noteq> ''WARNING'') (logs self)) =
          filter (\<lambda>l. level l = ''WARN'') (logs self)"
      by (auto intro: filter_cong)
    then show ?thesis by (simp add: get_statistics_def)
  qed
  have c: "map level (fst (parse_logs doc_warn init)) = [''WARN'', ''WARNING'']"
    by (simp add: parse_logs_eq warn_levels)
  have "length (filter (\<lambda>l. l = ''WARN'') (map level (doc_entries doc_warn))) = 1"
    by (simp add: warn_levels)
  then have d: "warnings (get_statistics (snd (parse_logs doc_warn init))) = 1"
    by (simp add: get_statistics_def parse_logs_eq filter_map comp_def)
  from a b c d show ?thesis by simp
qed

lemma blank_first_lines: "doc_lines doc_blank_first = ['''', ''a'']"
  by (simp add: doc_lines_def doc_blank_first_def)

lemma blank_first_strip: "py_strip [] = []" "py_strip ''a'' \<noteq> []"
  by code_simp+

section \<open>Line numbers\<close>

text \<open>
  Claim C2, as stated, fails: in the document consisting of a blank line followed by
  the line \<open>a\<close>, the only entry has \<open>line_number\<close> 2, so the line numbers are not
  the sequence 1, 2, ... over the non-blank lines.
\<close>

theorem C2_counterexample:
  "map line_number (fst (parse_logs doc_blank_first init)) = [2]
   \<and> map line_number (fst (parse_logs doc_blank_first init)) \<noteq>
       [1..<Suc (length (fst (parse_logs doc_blank_first init)))]"
  by (simp add: parse_logs_eq doc_entries_def blank_first_lines entries_of_Cons entries_of_Nil
      blank_first_strip make_entry_def)

text \<open>
  Claim C2, amended. The entries are the non-blank lines in original order, and the
  \<open>line_number\<close> of an entry is the 1-based position of its line among all lines of
  the document, blank lines included; the line numbers are strictly ascending.
\<close>

theorem C2_line_numbers:
  "map (\<lambda>e. (line_number e, raw e)) (fst (parse_logs content self)) =
     filter (\<lambda>il. py_strip (snd il) \<noteq> []) (enumerate 1 (py_split CHR 0x0A content))
   \<and> sorted_wrt (<) (map line_number (fst (parse_logs content self)))"
  by (simp only: parse_logs_eq fst_conv doc_entries_def doc_lines_def entries_pairs
      line_numbers_ascending One_nat_def simp_thms)

section \<open>The identifier index\<close>

lemma same_value_identifiers:
  "extract_identifiers doc_same_value = [(''user_id'', ''abc''), (''username'', ''abc'')]"
  by code_simp

lemma same_value_lines: "doc_lines doc_same_value = [doc_same_value]"
  by (simp add: doc_lines_def doc_same_value_def)

lemma same_value_strip: "py_strip doc_same_value \<noteq> []"
  by code_simp

lemma same_value_entries: "doc_entries doc_same_value = [make_entry 0 doc_same_value]"
  by (simp add: doc_entries_def same_value_lines entries_of_Cons entries_of_Nil same_value_strip)

lemma identifiers_make_entry: "identifiers (make_entry i l) = extract_identifiers l"
  by (simp add: make_entry_def)

lemma bucket_init: "bucket (user_sessions init) v = []"
  by (simp add: bucket_def init_def)

text \<open>
  Claim C4, as stated, fails: the line \<open>user_id=abc username=abc\<close> carries the value
  \<open>abc\<close> under two kinds, and its entry appears twice in the bucket for \<open>abc\<close>, once
  per kind.
\<close>

theorem C4_counterexample:
  "fst (parse_logs doc_same_value init) = [make_entry 0 doc_same_value]
   \<and> identifiers (make_entry 0 doc_same_value) = [(''user_id'', ''abc''), (''username'', ''abc'')]
   \<and> bucket (user_sessions (snd (parse_logs doc_same_value init))) ''abc'' =
       [make_entry 0 doc_same_value, make_entry 0 doc_same_value]
   \<and> count_list (bucket (user_sessions (snd (parse_logs doc_same_value init))) ''abc'')
       (make_entry 0 doc_same_value) \<noteq> 1"
  by (simp add: parse_logs_eq same_value_entries bucket_index_entries bucket_index_entry
      bucket_init identifiers_make_entry same_value_identifiers)

text \<open>
  Claim C4, amended. After parsing a document with a new instance, the bucket of a value
  \<open>v\<close> lists the parsed entries in original line order, each entry once for every
  identifier kind under which it carries \<open>v\<close>.
\<close>

theorem C4_index_buckets:
  "bucket (user_sessions (snd (parse_logs content init))) v =
     concat (map (\<lambda>e. replicate
                    (length (filter (\<lambda>kv. snd kv \<noteq> [] \<and> snd kv = v) (identifiers e))) e)
               (fst (parse_logs content init)))"
  by (simp add: parse_logs_eq bucket_index_entries bucket_init map_replicate_const)

section \<open>The per-endpoint summary\<close>

lemma is_failed_spec: "is_failed = spec_failed"
  by (auto simp: is_failed_def spec_failed_def fun_eq_iff split: option.splits)

lemma summary_updates:
  "foldl (\<lambda>st e. summary_update e st) st cs =
     \<lparr>total_calls = total_calls st + length cs,
      successful = successful st + length (filter is_success_call cs),
      failed = failed st + length (filter counted_failed cs),
      stat_exceptions = stat_exceptions st @ concat (map exception_list (filter counted_failed cs))\<rparr>"
  by (induction cs arbitrary: st)
     (auto simp: summary_update_def Let_def counted_failed_def exception_list_def split: option.splits)

lemma summary_step_other:
  "call_key e \<noteq> Some k \<Longrightarrow> map_of (summary_step acc e) k = map_of acc k"
  by (auto simp: summary_step_def call_key_def Let_def update_conv' split: option.splits)

lemma summary_step_same:
  "call_key e = Some k \<Longrightarrow>
     map_of (summary_step acc e) k =
       Some (summary_update e (case map_of acc k of None \<Rightarrow> api_stat_default | Some st \<Rightarrow> st))"
  by (auto simp: summary_step_def call_key_def Let_def update_conv' split: option.splits)

lemma summary_fold:
  "map_of (foldl summary_step acc es) k =
     (if calls_for k es = [] then map_of acc k
      else Some (foldl (\<lambda>st e. summary_update e st)
                   (case map_of acc k of None \<Rightarrow> api_stat_default | Some st \<Rightarrow> st) (calls_for k es)))"
proof (induction es arbitrary: acc)
  case Nil
  then show ?case by (simp add: calls_for_def)
next
  case (Cons e es)
  show ?case
  proof (cases "call_key e = Some k")
    case True
    then show ?thesis
      by (simp add: Cons.IH summary_step_same calls_for_def)
  next
    case False
    then show ?thesis
      by (simp add: Cons.IH summary_step_other calls_for_def)
  qed
qed

lemma api_summary_closed:
  "map_of (get_api_summary self) k =
     (if calls_for k (api_calls self) = [] then None
      else Some \<lparr>total_calls = length (calls_for k (api_calls self)),
                 successful = length (filter is_success_call (calls_for k (api_calls self))),
                 failed = length (filter counted_failed (calls_for k (api_calls self))),
                 stat_exceptions =
                   concat (map exception_list (filter counted_failed (calls_for k (api_calls self))))\<rparr>)"
  by (simp add: get_api_summary_def summary_fold summary_updates api_stat_default_def)

lemma status_make_entry_nonzero: "status_code (make_entry i l) \<noteq> Some 0"
  by (auto simp: make_entry_def extract_status_code_def Let_def split: option.splits)

lemma in_entries_of: "e \<in> set (entries_of xs) \<Longrightarrow> \<exists>i l. e = make_entry i l"
  by (auto simp: entries_of_def)

lemma success_spec_entries:
  "e \<in> set (doc_entries content) \<Longrightarrow> is_success_call e = spec_successful e"
proof -
  assume "e \<in> set (doc_entries content)"
  then obtain i l where "e = make_entry i l"
    unfolding doc_entries_def by (blast dest: in_entries_of)
  then have "status_code e \<noteq> Some 0"
    by (simp add: status_make_entry_nonzero)
  then show ?thesis
    by (auto simp: is_success_call_def spec_successful_def split: option.splits)
qed

lemma calls_for_api_calls:
  "calls_for k (filter (\<lambda>e. api e \<noteq> None) es) = calls_for k es"
  unfolding calls_for_def filter_filter
  by (rule filter_cong) (auto simp: call_key_def split: option.splits)

lemma calls_for_subset: "set (calls_for k es) \<subseteq> set es"
  by (auto simp: calls_for_def)

lemma ok_error_lines: "doc_lines doc_ok_error = [doc_ok_error]"
  by (simp add: doc_lines_def doc_ok_error_def)

lemma ok_error_strip: "py_strip doc_ok_error \<noteq> []"
  by code_simp

lemma ok_error_api: "extract_api_call doc_ok_error = Some (''GET'', ''/a'')"
  by code_simp

lemma ok_error_status: "extract_status_code doc_ok_error = Some 200"
  by code_simp

lemma ok_error_has_error: "has_error_line doc_ok_error"
  by code_simp

lemma ok_error_entries: "doc_entries doc_ok_error = [make_entry 0 doc_ok_error]"
  by (simp add: doc_entries_def ok_error_lines entries_of_Cons entries_of_Nil ok_error_strip)

lemma ok_error_fields:
  "api (make_entry 0 doc_ok_error) = Some (''GET'', ''/a'')"
  "status_code (make_entry 0 doc_ok_error) = Some 200"
  "has_error (make_entry 0 doc_ok_error)"
  by (simp_all add: make_entry_def ok_error_api ok_error_status ok_error_has_error)

text \<open>
  Claim C3, as stated, fails: the call \<open>GET /a 200 error\<close> has \<open>has_error\<close> true, so it
  satisfies the stated failure condition, but it is counted as successful only.
\<close>

theorem C3_counterexample:
  "fst (parse_logs doc_ok_error init) = [make_entry 0 doc_ok_error]
   \<and> api (make_entry 0 doc_ok_error) = Some (''GET'', ''/a'')
   \<and> status_code (make_entry 0 doc_ok_error) = Some 200
   \<and> has_error (make_entry 0 doc_ok_error)
   \<and> get_api_summary (snd (parse_logs doc_ok_error init)) =
       [(''GET /a'', \<lparr>total_calls = 1, successful = 1, failed = 0, stat_exceptions = []\<rparr>)]"
  by (simp add: parse_logs_eq ok_error_entries ok_error_fields init_def get_api_summary_def
      summary_step_def endpoint_key_def api_stat_default_def summary_update_def
      is_success_call_def)

text \<open>
  Claim C3, amended. For a document parsed with a new instance, the summary has an
  entry for key \<open>k\<close> exactly when some parsed entry has that key; \<open>total_calls\<close> counts
  those entries, \<open>successful\<close> those with a status code below 400, \<open>failed\<close> those that
  are not successful and have \<open>has_error\<close> or a status code of at least 400, and the
  exception types of the failed ones are listed in order, absent ones skipped.
\<close>

theorem C3_api_summary:
  "map_of (get_api_summary (snd (parse_logs content init))) k =
     (let cs = calls_for k (fst (parse_logs content init)) in
      if cs = [] then None
      else Some \<lparr>total_calls = length cs,
                 successful = length (filter spec_successful cs),
                 failed = length (filter (\<lambda>e. spec_failed e \<and> \<not> spec_successful e) cs),
                 stat_exceptions =
                   concat (map exception_list
                     (filter (\<lambda>e. spec_failed e \<and> \<not> spec_successful e) cs))\<rparr>)"
proof -
  let ?cs = "calls_for k (doc_entries content)"
  have calls: "calls_for k (api_calls (snd (parse_logs content init))) = ?cs"
    by (simp add: parse_logs_eq init_def calls_for_api_calls del: not_None_eq)
  have mem: "is_success_call e = spec_successful e" if "e \<in> set ?cs" for e
    using that calls_for_subset success_spec_entries by blast
  have s: "filter is_success_call ?cs = filter spec_successful ?cs"
    by (rule filter_cong) (simp_all add: mem)
  have f: "filter counted_failed ?cs = filter (\<lambda>e. spec_failed e \<and> \<not> spec_successful e) ?cs"
    by (rule filter_cong) (simp_all add: mem counted_failed_def is_failed_spec)
  have entries: "fst (parse_logs content init) = doc_entries content"
    by (simp add: parse_logs_eq)
  show ?thesis
    unfolding api_summary_closed calls entries Let_def s f by (rule refl)
qed

section \<open>The error sequence of a journey\<close>

lemma or_else_simps [simp]:
  "or_else None b = b" "or_else (Some x) b = Some x" "or_else a None = a"
  by (simp_all add: or_else_def split: option.splits)

lemma or_else_assoc: "or_else (or_else a b) c = or_else a (or_else b c)"
  by (simp add: or_else_def split: option.splits)

lemma last_option_simps [simp]:
  "last_option [] = None" "last_option (xs @ [x]) = Some x"
  by (simp_all add: last_option_def)

lemma last_option_append:
  "last_option (xs @ ys) = or_else (last_option ys) (last_option xs)"
  by (cases ys rule: rev_cases) (simp_all flip: append_assoc)

lemma api_list_Nil [simp]: "api_list [] = []"
  by (simp add: api_list_def)

lemma api_list_Cons:
  "api_list (e # es) = api_of e @ api_list es"
  by (simp add: api_list_def)

lemma last_api_single: "last_option (api_of e) = api e"
  by (cases "api e") (simp_all add: api_of_def last_option_def)

lemma step_failed:
  "is_failed e \<Longrightarrow>
     sequence_step r e =
       r\<lparr>failed_requests := failed_requests r @ [e],
         first_error := or_else (first_error r) (Some e),
         error_apis := error_apis r @ api_of e\<rparr>"
  by (cases "first_error r"; cases "api e")
     (simp_all add: sequence_step_def Let_def api_of_def)

lemma step_ok:
  "\<not> is_failed e \<Longrightarrow>
     sequence_step r e =
       r\<lparr>successful_requests := successful_requests r @ [e],
         last_successful_api := or_else (api e) (last_successful_api r)\<rparr>"
  by (cases "api e") (simp_all add: sequence_step_def Let_def)

lemma sequence_fold:
  "foldl sequence_step r J =
     r\<lparr>successful_requests := successful_requests r @ filter (\<lambda>e. \<not> is_failed e) J,
       failed_requests := failed_requests r @ filter is_failed J,
       first_error := or_else (first_error r) (List.find is_failed J),
       last_successful_api :=
         or_else (last_option (api_list (filter (\<lambda>e. \<not> is_failed e) J))) (last_successful_api r),
       error_apis := error_apis r @ api_list (filter is_failed J)\<rparr>"
proof (induction J arbitrary: r)
  case Nil
  then show ?case by simp
next
  case (Cons e J)
  show ?case
  proof (cases "is_failed e")
    case True
    then show ?thesis
      by (simp add: Cons.IH step_failed api_list_Cons or_else_assoc)
  next
    case False
    then show ?thesis
      by (simp add: Cons.IH step_ok api_list_Cons last_option_append last_api_single
          or_else_assoc)
  qed
qed

lemma make_entry_fields:
  "line_number (make_entry i l) = Suc i"
  "raw (make_entry i l) = l"
  "timestamp (make_entry i l) = extract_timestamp l"
  "level (make_entry i l) = extract_log_level l"
  "api (make_entry i l) = extract_api_call l"
  "status_code (make_entry i l) = extract_status_code l"
  "identifiers (make_entry i l) = extract_identifiers l"
  "has_error (make_entry i l) = has_error_line l"
  "exception_type (make_entry i l) = extract_exception l"
  by (simp_all add: make_entry_def)

lemma two_success_lines: "doc_lines doc_two_success = [line_get, line_ok]"
  by (simp add: doc_lines_def doc_two_success_def line_get_def line_ok_def)

lemma line_get_eval:
  "py_strip line_get \<noteq> []"
  "extract_identifiers line_get = [(''user_id'', ''abc'')]"
  "extract_api_call line_get = Some (''GET'', ''/a'')"
  "extract_status_code line_get = None"
  "extract_timestamp line_get = None"
  "has_error_line line_get = False"
  by code_simp+

lemma line_ok_eval:
  "py_strip line_ok \<noteq> []"
  "extract_identifiers line_ok = [(''user_id'', ''abc'')]"
  "extract_api_call line_ok = None"
  "extract_status_code line_ok = None"
  "extract_timestamp line_ok = None"
  "has_error_line line_ok = False"
  by code_simp+

lemma abc_in_abc: "py_in (py_lower ''abc'') (py_lower ''abc'')"
  by code_simp

lemma two_success_entries:
  "doc_entries doc_two_success = [make_entry 0 line_get, make_entry 1 line_ok]"
  by (simp add: doc_entries_def two_success_lines entries_of_Cons entries_of_Nil
      line_get_eval line_ok_eval)

lemma two_success_sessions:
  "user_sessions (snd (parse_logs doc_two_success init)) =
     [(''abc'', [make_entry 0 line_get, make_entry 1 line_ok])]"
  by (simp add: parse_logs_eq two_success_entries init_def index_entry_def make_entry_fields
      line_get_eval line_ok_eval dict_append_def bucket_def)

lemma two_success_journey:
  "get_user_journey (snd (parse_logs doc_two_success init)) ''abc'' =
     [make_entry 0 line_get, make_entry 1 line_ok]"
  by (simp add: get_user_journey_def collect_user_logs_def two_success_sessions
      journey_match_def make_entry_fields line_get_eval line_ok_eval abc_in_abc
      timestamp_key_def)

lemma two_success_not_failed:
  "\<not> is_failed (make_entry i line_get)" "\<not> is_failed (make_entry i line_ok)"
  by (simp_all add: is_failed_def make_entry_fields line_get_eval line_ok_eval)

lemma find_error_sequence_closed:
  "find_error_sequence self q =
     (let J = get_user_journey self q in
      if J = [] then None
      else Some \<lparr>total_requests = length J,
                 successful_requests = filter (\<lambda>e. \<not> is_failed e) J,
                 failed_requests = filter is_failed J,
                 first_error = List.find is_failed J,
                 last_successful_api = last_option (api_list (filter (\<lambda>e. \<not> is_failed e) J)),
                 error_apis = api_list (filter is_failed J)\<rparr>)"
  by (simp add: find_error_sequence_def Let_def sequence_fold)

text \<open>
  Claim C5, as stated, fails: in the journey of \<open>abc\<close> over the lines
  \<open>user_id=abc GET /a\<close> and \<open>user_id=abc ok\<close> both entries are successful and the most
  recent one has no \<open>api\<close> field, yet \<open>last_successful_api\<close> is the API of the first.
\<close>

theorem C5_counterexample:
  "map_option successful_requests
       (find_error_sequence (snd (parse_logs doc_two_success init)) ''abc'') =
     Some [make_entry 0 line_get, make_entry 1 line_ok]
   \<and> api (make_entry 1 line_ok) = None
   \<and> map_option last_successful_api
       (find_error_sequence (snd (parse_logs doc_two_success init)) ''abc'') =
     Some (Some (''GET'', ''/a''))"
  by (simp add: find_error_sequence_closed two_success_journey two_success_not_failed
      api_list_Cons api_of_def last_option_def make_entry_fields line_get_eval line_ok_eval)

text \<open>
  Claim C5, amended. When the journey is not empty, an entry of it is failed exactly when
  \<open>has_error\<close> holds or its status code is at least 400; \<open>total_requests\<close> is the length
  of the journey, \<open>first_error\<close> the first failed entry in sorted order, and
  \<open>last_successful_api\<close> the \<open>api\<close> field of the last successful entry that has one
  (absent when no successful entry has one). An empty journey gives no result.
\<close>

theorem C5_error_sequence:
  "find_error_sequence self q =
     (let J = get_user_journey self q in
      if J = [] then None
      else Some \<lparr>total_requests = length J,
                 successful_requests = filter (\<lambda>e. \<not> spec_failed e) J,
                 failed_requests = filter spec_failed J,
                 first_error = List.find spec_failed J,
                 last_successful_api = last_option (api_list (filter (\<lambda>e. \<not> spec_failed e) J)),
                 error_apis = api_list (filter spec_failed J)\<rparr>)"
  by (simp only: find_error_sequence_closed is_failed_spec)

section \<open>Parsing twice with one instance\<close>

lemma get_lines: "doc_lines doc_get = [doc_get]"
  by (simp add: doc_lines_def doc_get_def)

lemma get_eval:
  "py_strip doc_get \<noteq> []"
  "extract_api_call doc_get = Some (''GET'', ''/a'')"
  by code_simp+

lemma get_entries: "doc_entries doc_get = [make_entry 0 doc_get]"
  by (simp add: doc_entries_def get_lines entries_of_Cons entries_of_Nil get_eval)

lemma get_call_key: "call_key (make_entry i doc_get) = Some ''GET /a''"
  by (simp add: call_key_def make_entry_fields get_eval endpoint_key_def)

text \<open>
  Claim C1 at the document \<open>GET /a\<close>, parsed twice with the same instance: the second
  parse returns the same entries, but the API-call list still holds the entry of the
  first parse, so \<open>get_statistics\<close> reports 2 API calls instead of 1 and
  \<open>get_api_summary\<close> reports 2 calls for \<open>GET /a\<close> instead of 1.
\<close>

theorem C1_reparse_accumulates:
  "fst (parse_logs doc_get (snd (parse_logs doc_get init))) = fst (parse_logs doc_get init)
   \<and> stat_api_calls (get_statistics (snd (parse_logs doc_get init))) = 1
   \<and> stat_api_calls (get_statistics (snd (parse_logs doc_get (snd (parse_logs doc_get init))))) = 2
   \<and> map_option total_calls (map_of (get_api_summary (snd (parse_logs doc_get init))) ''GET /a'') =
       Some 1
   \<and> map_option total_calls
         (map_of (get_api_summary (snd (parse_logs doc_get (snd (parse_logs doc_get init)))))
            ''GET /a'') = Some 2"
  by (simp add: parse_logs_eq get_entries get_statistics_def init_def make_entry_fields get_eval
      api_summary_closed calls_for_def get_call_key)

section \<open>Searching with a pattern\<close>

lemma py_in_sublist: "py_in sub s = sublist sub s"
  by (induction s) (simp_all add: sublist_Cons_right)

lemma first_match_None:
  "first_match ic r s is = None \<longleftrightarrow> (\<forall>i \<in> set is. rx_m ic s r (i, []) = [])"
  by (induction "is") (auto split: list.splits)

lemma first_match_Some:
  "first_match ic r s is = Some m \<Longrightarrow>
     m_start m \<in> set is \<and> (\<exists>rest. rx_m ic s r (m_start m, []) = (m_end m, m_caps m) # rest)"
  by (induction "is") (auto split: list.splits)

lemma re_search_None:
  "re_search ic r s = None \<longleftrightarrow> (\<forall>i \<le> length s. rx_m ic s r (i, []) = [])"
  by (auto simp: re_search_def first_match_None less_Suc_eq_le)

lemma re_search_Some:
  "re_search ic r s = Some m \<Longrightarrow>
     m_start m \<le> length s \<and> (\<exists>rest. rx_m ic s r (m_start m, []) = (m_end m, m_caps m) # rest)"
  by (auto simp: re_search_def less_Suc_eq_le dest!: first_match_Some)

lemma lit_at_ci:
  "lit_at True l t \<longleftrightarrow> length l \<le> length t \<and> py_lower (take (length l) t) = py_lower l"
  by (induction True l t rule: lit_at.induct) (auto simp: lit_ok_def py_lower_def)

lemma lit_at_cs:
  "lit_at False l t \<longleftrightarrow> prefix l t"
  by (induction False l t rule: lit_at.induct) (auto simp: lit_ok_def)

lemma lit_at_ci_split:
  "lit_at True l t \<longleftrightarrow> (\<exists>mid rest. t = mid @ rest \<and> py_lower mid = py_lower l)"
proof
  assume "lit_at True l t"
  then have "t = take (length l) t @ drop (length l) t \<and> py_lower (take (length l) t) = py_lower l"
    by (simp add: lit_at_ci)
  then show "\<exists>mid rest. t = mid @ rest \<and> py_lower mid = py_lower l" by blast
next
  assume "\<exists>mid rest. t = mid @ rest \<and> py_lower mid = py_lower l"
  then obtain mid rest where t: "t = mid @ rest" and m: "py_lower mid = py_lower l" by blast
  from m have "length mid = length l"
    unfolding py_lower_def by (metis length_map)
  with t m show "lit_at True l t" by (simp add: lit_at_ci)
qed

lemma exception_match:
  "rx_m True s pat_exception (i, []) \<noteq> [] \<longleftrightarrow>
     lit_at True ''Exception'' (drop i s) \<or> lit_at True ''Error'' (drop i s) \<or>
     lit_at True ''Traceback'' (drop i s)"
  by (simp add: pat_exception_def)

lemma lowered_literals:
  "py_lower ''Exception'' = ''exception''" "py_lower ''Error'' = ''error''"
  "py_lower ''Traceback'' = ''traceback''"
  by code_simp+

lemma ci_at_position:
  "(\<exists>i \<le> length s. lit_at True l (drop i s)) \<longleftrightarrow>
     (\<exists>pre mid post. s = pre @ mid @ post \<and> py_lower mid = py_lower l)"
proof
  assume "\<exists>i \<le> length s. lit_at True l (drop i s)"
  then obtain i mid rest where "drop i s = mid @ rest" "py_lower mid = py_lower l"
    by (auto simp: lit_at_ci_split)
  then have "s = take i s @ mid @ rest \<and> py_lower mid = py_lower l"
    by (metis append_take_drop_id)
  then show "\<exists>pre mid post. s = pre @ mid @ post \<and> py_lower mid = py_lower l" by blast
next
  assume "\<exists>pre mid post. s = pre @ mid @ post \<and> py_lower mid = py_lower l"
  then obtain pre mid post where s: "s = pre @ mid @ post" and m: "py_lower mid = py_lower l"
    by blast
  then have "length pre \<le> length s" "lit_at True l (drop (length pre) s)"
    by (auto simp: lit_at_ci_split)
  then show "\<exists>i \<le> length s. lit_at True l (drop i s)" by blast
qed

lemma in_lowered:
  "py_in sub (py_lower s) \<longleftrightarrow> (\<exists>pre mid post. s = pre @ mid @ post \<and> py_lower mid = sub)"
proof
  assume "py_in sub (py_lower s)"
  then obtain ps ss where "map py_lower_char s = ps @ sub @ ss"
    by (auto simp: py_in_sublist sublist_def py_lower_def)
  then have "map py_lower_char (take (length sub) (drop (length ps) s)) = sub"
    by (simp add: take_map [symmetric] drop_map [symmetric])
  moreover have "s = take (length ps) s @ take (length sub) (drop (length ps) s)
                 @ drop (length sub) (drop (length ps) s)"
    by (simp only: append_take_drop_id)
  ultimately have "s = take (length ps) s @ take (length sub) (drop (length ps) s)
                 @ drop (length sub) (drop (length ps) s)
             \<and> py_lower (take (length sub) (drop (length ps) s)) = sub"
    unfolding py_lower_def by (rule conjI [rotated])
  then show "\<exists>pre mid post. s = pre @ mid @ post \<and> py_lower mid = sub" by blast
next
  assume "\<exists>pre mid post. s = pre @ mid @ post \<and> py_lower mid = sub"
  then show "py_in sub (py_lower s)"
    by (auto simp: py_in_sublist py_lower_def)
qed

lemma is_match_iff: "is_match m \<longleftrightarrow> m \<noteq> None"
  by (simp add: is_match_def split: option.splits)

lemma exception_search:
  "is_match (re_search True pat_exception s) \<longleftrightarrow>
     (\<exists>pre mid post. s = pre @ mid @ post \<and>
        (py_lower mid = ''exception'' \<or> py_lower mid = ''error'' \<or> py_lower mid = ''traceback''))"
proof -
  have "is_match (re_search True pat_exception s) \<longleftrightarrow>
        (\<exists>i \<le> length s. lit_at True ''Exception'' (drop i s)) \<or>
        (\<exists>i \<le> length s. lit_at True ''Error'' (drop i s)) \<or>
        (\<exists>i \<le> length s. lit_at True ''Traceback'' (drop i s))"
    unfolding is_match_iff re_search_None using exception_match by blast
  then show ?thesis
    unfolding ci_at_position lowered_literals by blast
qed

section \<open>The error flag on the code points 0..255\<close>

text \<open>
  On strings of the code points 0..255, where matching without regard to case and
  comparing lower-cased text coincide, the flag is true exactly when some contiguous
  part of the line lower-cases to \<open>exception\<close>, \<open>error\<close> or \<open>traceback\<close>.
\<close>

lemma has_error_line_parts:
  "has_error_line line \<longleftrightarrow>
     (\<exists>pre mid post. line = pre @ mid @ post \<and>
        (py_lower mid = ''exception'' \<or> py_lower mid = ''error'' \<or> py_lower mid = ''traceback''))"
  unfolding has_error_line_def exception_search in_lowered by blast

section \<open>The exception type\<close>

lemma cls_ok_cs [simp]: "cls_ok False p = p"
  by (simp add: cls_ok_def fun_eq_iff)

lemma set_rep_counts_unbounded:
  "set (rep_counts ic p m None t) = {j. m \<le> j \<and> j \<le> length (takeWhile (cls_ok ic p) t)}"
  by (auto simp: rep_counts_def Let_def)

lemma le_takeWhile_iff:
  "j \<le> length (takeWhile p t) \<longleftrightarrow> j \<le> length t \<and> list_all p (take j t)"
proof (induction t arbitrary: j)
  case Nil
  then show ?case by simp
next
  case (Cons x t)
  then show ?case by (cases j) auto
qed

text \<open>A match of \<open>\\w+L\<close> from position \<open>i\<close>: the end positions, in any order.\<close>

lemma word_lit_ends:
  "(j, g') \<in> set (rx_m False s (Seq (plus re_word) (Lit l)) (i, g)) \<longleftrightarrow>
     g' = g \<and> (\<exists>c\<ge>1. j = i + c + length l \<and> c \<le> length (drop i s) \<and>
                list_all re_word (take c (drop i s)) \<and> prefix l (drop (i + c) s))"
  by (auto simp: plus_def set_rep_counts_unbounded le_takeWhile_iff lit_at_cs)

lemma alt_mem:
  "x \<in> set (rx_m ic s (Alt a b) st) \<longleftrightarrow> x \<in> set (rx_m ic s a st) \<or> x \<in> set (rx_m ic s b st)"
  by simp

lemma grp_mem:
  "(j, g') \<in> set (rx_m ic s (Grp k r) (i, g)) \<longleftrightarrow>
     (\<exists>g''. g' = (k, i, j) # g'' \<and> (j, g'') \<in> set (rx_m ic s r (i, g)))"
  by auto

lemma exception_ends:
  "(j, g') \<in> set (rx_m False s exception_pattern (i, [])) \<longleftrightarrow>
     g' = [(1, i, j)] \<and>
     (\<exists>c\<ge>1. \<exists>l. (l = ''Exception'' \<or> l = ''Error'') \<and> j = i + c + length l \<and>
        c \<le> length (drop i s) \<and> list_all re_word (take c (drop i s)) \<and> prefix l (drop (i + c) s))"
  unfolding exception_pattern_def grp_mem alt_mem word_lit_ends
  by blast


lemma word_before_iff:
  "word_before suf line \<longleftrightarrow>
     (\<exists>n < length line. re_word (line ! n) \<and> prefix suf (drop (Suc n) line))"
  by (auto simp: word_before_def list_ex_iff word_at_def)

lemma exception_match_iff:
  "(\<exists>i \<le> length line. rx_m False line exception_pattern (i, []) \<noteq> []) \<longleftrightarrow>
     word_before ''Exception'' line \<or> word_before ''Error'' line"
proof
  assume "\<exists>i \<le> length line. rx_m False line exception_pattern (i, []) \<noteq> []"
  then obtain i j g' where "(j, g') \<in> set (rx_m False line exception_pattern (i, []))"
    by (metis list.set_intros(1) neq_Nil_conv surj_pair)
  then obtain c l where cl: "c \<ge> 1" "l = ''Exception'' \<or> l = ''Error''"
      "c \<le> length (drop i line)" "list_all re_word (take c (drop i line))"
      "prefix l (drop (i + c) line)"
    unfolding exception_ends by blast
  define n where "n = i + c - 1"
  from cl(1,3) have n: "n < length line" "Suc n = i + c"
    by (auto simp: n_def)
  from cl(1,3) have "take c (drop i line) ! (c - 1) = line ! n"
    by (simp add: n_def)
  moreover have "c - 1 < length (take c (drop i line))"
    using cl(1,3) by simp
  with cl(4) have "re_word (take c (drop i line) ! (c - 1))"
    unfolding list_all_length by blast
  ultimately have "re_word (line ! n)" by simp
  with n cl(5) have "word_before l line"
    unfolding word_before_iff by auto
  with cl(2) show "word_before ''Exception'' line \<or> word_before ''Error'' line" by blast
next
  assume "word_before ''Exception'' line \<or> word_before ''Error'' line"
  then obtain l n where l: "l = ''Exception'' \<or> l = ''Error''" and n: "n < length line"
      and w: "re_word (line ! n)" and p: "prefix l (drop (Suc n) line)"
    unfolding word_before_iff by blast
  from n w have "list_all re_word (take 1 (drop n line))"
    by (simp add: take_Suc_conv_app_nth hd_drop_conv_nth take_Suc)
  with l n p have "(n + 1 + length l, [(1, n, n + 1 + length l)]) \<in>
      set (rx_m False line exception_pattern (n, []))"
    unfolding exception_ends by (intro conjI exI [of _ 1] exI [of _ l]) auto
  with n show "\<exists>i \<le> length line. rx_m False line exception_pattern (i, []) \<noteq> []"
    by (metis empty_iff empty_set less_imp_le)
qed

lemma extract_exception_None:
  "extract_exception line = None \<longleftrightarrow>
     \<not> word_before ''Exception'' line \<and> \<not> word_before ''Error'' line"
proof -
  have "extract_exception line = None \<longleftrightarrow> re_search False exception_pattern line = None"
    by (simp add: extract_exception_def split: option.splits)
  also have "\<dots> \<longleftrightarrow> \<not> (\<exists>i \<le> length line. rx_m False line exception_pattern (i, []) \<noteq> [])"
    by (simp add: re_search_None)
  finally show ?thesis
    by (simp add: exception_match_iff)
qed

lemma extract_exception_Some:
  assumes "extract_exception line = Some t"
  shows "\<exists>w suf. (suf = ''Exception'' \<or> suf = ''Error'') \<and> w \<noteq> [] \<and> list_all re_word w \<and>
           t = w @ suf \<and> py_in t line"
proof -
  from assms obtain m where m: "re_search False exception_pattern line = Some m"
      and t: "t = group line m 1"
    by (auto simp: extract_exception_def split: option.splits)
  from re_search_Some [OF m] obtain rest where
      "rx_m False line exception_pattern (m_start m, []) = (m_end m, m_caps m) # rest"
    by blast
  then have "(m_end m, m_caps m) \<in> set (rx_m False line exception_pattern (m_start m, []))"
    by simp
  then obtain c l where caps: "m_caps m = [(1, m_start m, m_end m)]" and c: "c \<ge> 1"
      and l: "l = ''Exception'' \<or> l = ''Error''" and e: "m_end m = m_start m + c + length l"
      and len: "c \<le> length (drop (m_start m) line)"
      and w: "list_all re_word (take c (drop (m_start m) line))"
      and p: "prefix l (drop (m_start m + c) line)"
    unfolding exception_ends by blast
  define i where "i = m_start m"
  define w where "w = take c (drop i line)"
  from p obtain zs where zs: "drop (i + c) line = l @ zs"
    unfolding i_def by (auto simp: prefix_def)
  have "t = take (c + length l) (drop i line)"
    by (simp add: t group_def caps substr_def e i_def)
  also have "\<dots> = take c (drop i line) @ take (length l) (drop c (drop i line))"
    by (simp add: take_add)
  also have "drop c (drop i line) = l @ zs"
    using zs by (simp add: add.commute)
  finally have tw: "t = w @ l"
    by (simp add: w_def)
  from c len have "w \<noteq> []"
    by (auto simp: w_def i_def)
  moreover have "list_all re_word w"
    using w by (simp add: w_def i_def)
  moreover have "line = take i line @ t @ zs"
  proof -
    have "drop i line = w @ drop c (drop i line)"
      by (simp only: w_def append_take_drop_id)
    also have "\<dots> = w @ l @ zs"
      using zs by (simp add: add.commute)
    finally have "drop i line = t @ zs" by (simp add: tw)
    then show ?thesis by (metis append_take_drop_id)
  qed
  then have "py_in t line"
    unfolding py_in_sublist sublist_def by blast
  ultimately show ?thesis
    using l tw by blast
qed

lemma in_lower_of_in:
  assumes "py_in sub line"
  shows "py_in (py_lower sub) (py_lower line)"
proof -
  from assms obtain ps ss where "line = ps @ sub @ ss"
    by (auto simp: py_in_sublist sublist_def)
  then have "py_lower line = py_lower ps @ py_lower sub @ py_lower ss"
    by (simp add: py_lower_def)
  then show ?thesis
    by (simp add: py_in_sublist)
qed

text \<open>
  Claim C10. When \<open>Error\<close> or \<open>Exception\<close> occurs in a line and no occurrence of either
  has a word character immediately before it, the entry has \<open>has_error\<close> true and no
  \<open>exception_type\<close>. Whenever \<open>exception_type\<close> is present, it is a non-empty run of
  word characters followed by \<open>Exception\<close> or \<open>Error\<close>, taken from the line.
\<close>

theorem C10_bare_error:
  "((py_in ''Error'' line \<or> py_in ''Exception'' line)
      \<and> \<not> word_before ''Error'' line \<and> \<not> word_before ''Exception'' line
      \<longrightarrow> has_error_line line \<and> extract_exception line = None)
   \<and> (\<forall>t. extract_exception line = Some t \<longrightarrow>
         (\<exists>w suf. (suf = ''Exception'' \<or> suf = ''Error'') \<and> w \<noteq> [] \<and> list_all re_word w \<and>
            t = w @ suf \<and> py_in t line))"
proof -
  have "has_error_line line" if "py_in ''Error'' line \<or> py_in ''Exception'' line"
    using that in_lower_of_in [of "''Error''" line] in_lower_of_in [of "''Exception''" line]
    by (auto simp: has_error_line_def lowered_literals)
  then show ?thesis
    using extract_exception_None extract_exception_Some by blast
qed

lemma bare_error_hyp:
  "py_in ''Error'' line_bare_error" "\<not> word_before ''Error'' line_bare_error"
  "\<not> word_before ''Exception'' line_bare_error"
  by code_simp+

lemma npe_eval: "extract_exception line_npe = Some ''NullPointerException''"
  by code_simp

text \<open>
  The claim at the line \<open>Error: connection refused\<close>, and the second part at a line
  with \<open>NullPointerException\<close>.
\<close>

theorem C10_witness:
  "(py_in ''Error'' line_bare_error \<or> py_in ''Exception'' line_bare_error)
   \<and> \<not> word_before ''Error'' line_bare_error \<and> \<not> word_before ''Exception'' line_bare_error
   \<and> has_error_line line_bare_error \<and> extract_exception line_bare_error = None
   \<and> extract_exception line_npe = Some ''NullPointerException''
   \<and> (\<exists>w suf. (suf = ''Exception'' \<or> suf = ''Error'') \<and> w \<noteq> [] \<and> list_all re_word w \<and>
          ''NullPointerException'' = w @ suf \<and> py_in ''NullPointerException'' line_npe)"
  using C10_bare_error [of line_bare_error] C10_bare_error [of line_npe] bare_error_hyp npe_eval
  by blast

section \<open>The status code\<close>

lemma seq_mem:
  "x \<in> set (rx_m ic s (Seq a b) st) \<longleftrightarrow> (\<exists>y \<in> set (rx_m ic s a st). x \<in> set (rx_m ic s b y))"
  by auto

lemma bnd_mem:
  "x \<in> set (rx_m ic s Bnd (i, g)) \<longleftrightarrow> x = (i, g) \<and> at_boundary s i"
  by auto

lemma lit_mem:
  "(j, g') \<in> set (rx_m False s (Lit l) (i, g)) \<longleftrightarrow> g' = g \<and> j = i + length l \<and> prefix l (drop i s)"
  by (auto simp: lit_at_cs)

lemma rep_counts_exactly:
  "rep_counts ic p n (Some n) t = (if n \<le> length (takeWhile (cls_ok ic p) t) then [n] else [])"
  by (simp add: rep_counts_def Let_def min_def)

lemma exactly_mem:
  "(j, g') \<in> set (rx_m False s (exactly n p) (i, g)) \<longleftrightarrow>
     g' = g \<and> j = i + n \<and> n \<le> length (drop i s) \<and> list_all p (take n (drop i s))"
  by (auto simp: exactly_def rep_counts_exactly le_takeWhile_iff)

lemma three_chars:
  "prefix [d] t \<and> 2 \<le> length (drop 1 t) \<and> list_all p (take 2 (drop 1 t)) \<longleftrightarrow>
     (\<exists>x y. take 3 t = [d, x, y] \<and> p x \<and> p y)"
proof (cases t)
  case Nil
  then show ?thesis by simp
next
  case t1: (Cons a t1)
  show ?thesis
  proof (cases t1)
    case Nil
    with t1 show ?thesis by simp
  next
    case t2: (Cons b t2)
    show ?thesis
    proof (cases t2)
      case Nil
      with t1 t2 show ?thesis by simp
    next
      case (Cons c t3)
      with t1 t2 show ?thesis by (auto simp: numeral_2_eq_2 numeral_3_eq_3)
    qed
  qed
qed

lemma hundreds_mem:
  "(j, g') \<in> set (rx_m False s (Seq (Lit [d]) (exactly 2 re_digit)) (i, g)) \<longleftrightarrow>
     g' = g \<and> j = i + 3 \<and> (\<exists>x y. take 3 (drop i s) = [d, x, y] \<and> re_digit x \<and> re_digit y)"
proof -
  have "(j, g') \<in> set (rx_m False s (Seq (Lit [d]) (exactly 2 re_digit)) (i, g)) \<longleftrightarrow>
        g' = g \<and> j = i + 3 \<and>
        (prefix [d] (drop i s) \<and> 2 \<le> length (drop 1 (drop i s)) \<and>
         list_all re_digit (take 2 (drop 1 (drop i s))))"
    unfolding seq_mem Bex_def split_paired_Ex lit_mem exactly_mem by auto
  then show ?thesis
    unfolding three_chars .
qed

lemma seq_bnd_left:
  "rx_m ic s (Seq Bnd r) (i, g) = (if at_boundary s i then rx_m ic s r (i, g) else [])"
  by simp

lemma seq_bnd_right:
  "(j, g') \<in> set (rx_m ic s (Seq r Bnd) st) \<longleftrightarrow>
     (j, g') \<in> set (rx_m ic s r st) \<and> at_boundary s j"
  by (auto split: if_splits intro!: bexI [of _ "(j, g')"])

lemma alts_hundreds_mem:
  "(j, g') \<in> set (rx_m False s (alts (map (\<lambda>d. Seq (Lit [d]) (exactly 2 re_digit)) ds)) (i, g)) \<longleftrightarrow>
     g' = g \<and> j = i + 3 \<and>
     (\<exists>d x y. d \<in> set ds \<and> take 3 (drop i s) = [d, x, y] \<and> re_digit x \<and> re_digit y)"
proof (induction ds rule: induct_list012)
  case 1
  then show ?case by (simp add: cls_ok_def)
next
  case (2 d)
  then show ?case
    unfolding list.map alts.simps hundreds_mem by simp
next
  case (3 d d' ds)
  have "(j, g') \<in> set (rx_m False s
          (alts (map (\<lambda>d. Seq (Lit [d]) (exactly 2 re_digit)) (d # d' # ds))) (i, g)) \<longleftrightarrow>
        (j, g') \<in> set (rx_m False s (Seq (Lit [d]) (exactly 2 re_digit)) (i, g)) \<or>
        (j, g') \<in> set (rx_m False s
          (alts (map (\<lambda>d. Seq (Lit [d]) (exactly 2 re_digit)) (d' # ds))) (i, g))"
    by simp
  also have "\<dots> \<longleftrightarrow> g' = g \<and> j = i + 3 \<and>
     ((\<exists>x y. take 3 (drop i s) = [d, x, y] \<and> re_digit x \<and> re_digit y) \<or>
      (\<exists>e x y. e \<in> set (d' # ds) \<and> take 3 (drop i s) = [e, x, y] \<and> re_digit x \<and> re_digit y))"
    unfolding hundreds_mem "3.IH"(2) by blast
  also have "\<dots> \<longleftrightarrow> g' = g \<and> j = i + 3 \<and>
     (\<exists>e x y. e \<in> set (d # d' # ds) \<and> take 3 (drop i s) = [e, x, y] \<and> re_digit x \<and> re_digit y)"
    by (simp only: set_simps insert_iff) blast
  finally show ?case .
qed

lemma status_digits_mem:
  "(j, g') \<in> set (rx_m False s status_digits (i, g)) \<longleftrightarrow>
     g' = g \<and> j = i + 3 \<and>
     (\<exists>d x y. d \<in> set ''12345'' \<and> take 3 (drop i s) = [d, x, y] \<and> re_digit x \<and> re_digit y)"
proof -
  have eq: "status_digits = alts (map (\<lambda>d. Seq (Lit [d]) (exactly 2 re_digit)) ''12345'')"
    by (simp add: status_digits_def)
  show ?thesis
    unfolding eq by (rule alts_hundreds_mem)
qed

lemma status_ends:
  "(j, g') \<in> set (rx_m False s pat_status_code (i, [])) \<longleftrightarrow>
     g' = [(1, i, i + 3)] \<and> j = i + 3 \<and> at_boundary s i \<and> at_boundary s (i + 3) \<and>
     (\<exists>d x y. d \<in> set ''12345'' \<and> take 3 (drop i s) = [d, x, y] \<and> re_digit x \<and> re_digit y)"
proof -
  have pat: "pat_status_code = Seq Bnd (Seq (Grp 1 status_digits) Bnd)"
    by (simp add: pat_status_code_def status_digits_def)
  have "(j, g') \<in> set (rx_m False s pat_status_code (i, [])) \<longleftrightarrow>
        at_boundary s i \<and> (j, g') \<in> set (rx_m False s (Seq (Grp 1 status_digits) Bnd) (i, []))"
    unfolding pat seq_bnd_left by simp
  also have "(j, g') \<in> set (rx_m False s (Seq (Grp 1 status_digits) Bnd) (i, [])) \<longleftrightarrow>
        (j, g') \<in> set (rx_m False s (Grp 1 status_digits) (i, [])) \<and> at_boundary s j"
    by (rule seq_bnd_right)
  also have "(j, g') \<in> set (rx_m False s (Grp 1 status_digits) (i, [])) \<longleftrightarrow>
        g' = [(1, i, i + 3)] \<and> j = i + 3 \<and>
        (\<exists>d x y. d \<in> set ''12345'' \<and> take 3 (drop i s) = [d, x, y] \<and> re_digit x \<and> re_digit y)"
    unfolding grp_mem status_digits_mem by blast
  finally show ?thesis by blast
qed

lemma take3_length: "take 3 t = [d, x, y] \<Longrightarrow> 3 \<le> length t"
proof -
  assume "take 3 t = [d, x, y]"
  then have "length (take 3 t) = 3" by simp
  then show ?thesis by simp
qed

lemma extract_status_code_Some:
  assumes "extract_status_code line = Some c"
  shows "100 \<le> c \<and> c \<le> 599 \<and>
         (\<exists>i. i + 3 \<le> length line \<and> list_all re_digit (substr line i (i + 3)) \<and>
              c = py_int (substr line i (i + 3)))"
proof -
  from assms obtain m where m: "re_search False pat_status_code line = Some m"
      and c: "c = py_int (group line m 1)" and r: "100 \<le> c \<and> c \<le> 599"
    by (auto simp: extract_status_code_def Let_def split: option.splits if_splits)
  from re_search_Some [OF m] have
      "(m_end m, m_caps m) \<in> set (rx_m False line pat_status_code (m_start m, []))"
    by auto
  then obtain d x y where caps: "m_caps m = [(1, m_start m, m_start m + 3)]"
      and t: "take 3 (drop (m_start m) line) = [d, x, y]" and d: "d \<in> set ''12345''"
      and xy: "re_digit x" "re_digit y"
    unfolding status_ends by blast
  from d have "re_digit d"
    by (auto simp: re_digit_def in_range_def)
  with xy t have "list_all re_digit (substr line (m_start m) (m_start m + 3))"
    by (simp add: substr_def)
  moreover from take3_length [OF t] have "m_start m + 3 \<le> length line"
    by simp
  moreover have "c = py_int (substr line (m_start m) (m_start m + 3))"
    by (simp add: c group_def caps)
  ultimately show ?thesis
    using r by blast
qed

lemma status_examples:
  "extract_status_code line_600 = None" "extract_status_code line_099 = None"
  by code_simp+

text \<open>
  Claim C9. The status code of a line is absent or an integer from 100 to 599, read from
  three consecutive digits of the line; the lines \<open>code=600\<close> and \<open>id 099 done\<close> have no
  status code. The result is an optional value: no input makes the extraction fail.
\<close>

theorem C9_status_code_range:
  "(extract_status_code line = None \<or>
    (\<exists>c i. extract_status_code line = Some c \<and> 100 \<le> c \<and> c \<le> 599 \<and>
       i + 3 \<le> length line \<and> list_all re_digit (substr line i (i + 3)) \<and>
       c = py_int (substr line i (i + 3))))
   \<and> extract_status_code line_600 = None
   \<and> extract_status_code line_099 = None"
proof (cases "extract_status_code line")
  case None
  then show ?thesis by (simp add: status_examples)
next
  case (Some c)
  with extract_status_code_Some [OF Some] show ?thesis
    by (simp add: status_examples)
qed

section \<open>Bounds on matches\<close>

lemma lit_at_length: "lit_at ic l t \<Longrightarrow> length l \<le> length t"
  by (induction ic l t rule: lit_at.induct) (auto split: if_splits)

lemma rep_counts_bounds: "c \<in> set (rep_counts ic p m n t) \<Longrightarrow> m \<le> c \<and> c \<le> length t"
proof -
  assume "c \<in> set (rep_counts ic p m n t)"
  then have "m \<le> c" and "c \<le> length (takeWhile (cls_ok ic p) t)"
    by (auto simp: rep_counts_def Let_def split: option.splits)
  moreover have "length (takeWhile (cls_ok ic p) t) \<le> length t"
    by (rule length_takeWhile_le)
  ultimately show ?thesis by simp
qed

lemma match_bounds:
  "fst st \<le> length s \<Longrightarrow> (j, g') \<in> set (rx_m ic s r st) \<Longrightarrow>
     fst st + min_len r \<le> j \<and> j \<le> length s"
proof (induction ic s r st arbitrary: j g' rule: rx_m.induct)
  case (1 ic s l i g)
  then show ?case
    by (auto split: if_splits dest!: lit_at_length)
next
  case (2 ic s p i g)
  then show ?case by (auto split: if_splits)
next
  case (3 ic s p m n i g)
  then show ?case by (auto dest!: rep_counts_bounds)
next
  case (4 ic s a b st)
  from "4.prems"(2) obtain y where y: "y \<in> set (rx_m ic s a st)"
      and x: "(j, g') \<in> set (rx_m ic s b y)"
    by auto
  from "4.IH"(1) [OF "4.prems"(1), of "fst y" "snd y"] y
  have a: "fst st + min_len a \<le> fst y" "fst y \<le> length s" by simp_all
  from "4.IH"(2) [OF y a(2) x] a show ?case by simp
next
  case (5 ic s a b st)
  then show ?case by fastforce
next
  case (6 ic s k r i g)
  then show ?case by fastforce
next
  case (7 ic s i g)
  then show ?case by (auto split: if_splits)
qed

lemma match_caps:
  "fst st \<le> length s \<Longrightarrow> groups_wide n r \<Longrightarrow> (j, g') \<in> set (rx_m ic s r st) \<Longrightarrow>
     \<exists>new. g' = new @ snd st \<and> (\<forall>c \<in> set new. fst (snd c) + n \<le> snd (snd c) \<and> snd (snd c) \<le> length s)"
proof (induction ic s r st arbitrary: j g' rule: rx_m.induct)
  case (1 ic s l i g)
  then show ?case by (auto split: if_splits)
next
  case (2 ic s p i g)
  then show ?case by (auto split: if_splits)
next
  case (3 ic s p m n i g)
  then show ?case by auto
next
  case (4 ic s a b st)
  from "4.prems"(3) obtain y where y: "y \<in> set (rx_m ic s a st)"
      and x: "(j, g') \<in> set (rx_m ic s b y)"
    by auto
  from "4.prems"(2) have wa: "groups_wide n a" and wb: "groups_wide n b" by simp_all
  from match_bounds [OF "4.prems"(1), of "fst y" "snd y" ic a] y have yb: "fst y \<le> length s"
    by simp
  from "4.IH"(1) [OF "4.prems"(1) wa, of "fst y" "snd y"] y obtain new1 where
    n1: "snd y = new1 @ snd st"
       "\<forall>c \<in> set new1. fst (snd c) + n \<le> snd (snd c) \<and> snd (snd c) \<le> length s"
    by auto
  from "4.IH"(2) [OF y yb wb x] obtain new2 where
    n2: "g' = new2 @ snd y"
       "\<forall>c \<in> set new2. fst (snd c) + n \<le> snd (snd c) \<and> snd (snd c) \<le> length s"
    by auto
  from n1 n2 have "g' = (new2 @ new1) @ snd st \<and>
      (\<forall>c \<in> set (new2 @ new1). fst (snd c) + n \<le> snd (snd c) \<and> snd (snd c) \<le> length s)"
    by auto
  then show ?case by blast
next
  case (5 ic s a b st)
  then show ?case by fastforce
next
  case (6 ic s k r i g)
  from "6.prems"(3) obtain g'' where g': "g' = (k, i, j) # g''"
      and x: "(j, g'') \<in> set (rx_m ic s r (i, g))"
    by auto
  from "6.prems"(2) have w: "n \<le> min_len r" "groups_wide n r" by simp_all
  from match_bounds [OF _ x] "6.prems"(1) have b: "i + min_len r \<le> j" "j \<le> length s"
    by simp_all
  from "6.IH" [OF "6.prems"(1) w(2) x] obtain new where
    n: "g'' = new @ g"
       "\<forall>c \<in> set new. fst (snd c) + n \<le> snd (snd c) \<and> snd (snd c) \<le> length s"
    by auto
  from g' n b w(1) have "g' = ((k, i, j) # new) @ snd (i, g) \<and>
      (\<forall>c \<in> set ((k, i, j) # new). fst (snd c) + n \<le> snd (snd c) \<and> snd (snd c) \<le> length s)"
    by auto
  then show ?case by blast
next
  case (7 ic s i g)
  then show ?case by (auto split: if_splits)
qed

lemma match_captures:
  "(j, g') \<in> set (rx_m ic s r st) \<Longrightarrow>
     (captures k r \<or> k \<in> fst ` set (snd st)) \<Longrightarrow> k \<in> fst ` set g'"
proof (induction ic s r st arbitrary: j g' rule: rx_m.induct)
  case (4 ic s a b st)
  from "4.prems"(1) obtain y where y: "y \<in> set (rx_m ic s a st)"
      and x: "(j, g') \<in> set (rx_m ic s b y)"
    by auto
  show ?case
  proof (cases "captures k a \<or> k \<in> fst ` set (snd st)")
    case True
    from "4.IH"(1) [of "fst y" "snd y"] y True have "k \<in> fst ` set (snd y)" by simp
    with "4.IH"(2) [OF y x] show ?thesis by simp
  next
    case False
    with "4.prems"(2) have "captures k b" by simp
    with "4.IH"(2) [OF y x] show ?thesis by simp
  qed
next
  case (6 ic s k' r i g)
  from "6.prems"(1) obtain g'' where g': "g' = (k', i, j) # g''"
      and x: "(j, g'') \<in> set (rx_m ic s r (i, g))"
    by auto
  show ?case
  proof (cases "k = k'")
    case True
    with g' show ?thesis by simp
  next
    case False
    with "6.prems"(2) have "captures k r \<or> k \<in> fst ` set (snd (i, g))" by simp
    from "6.IH" [OF x this] g' show ?thesis by simp
  qed
next
  case (5 ic s a b st)
  from "5.prems"(2) have ca: "captures k a \<or> k \<in> fst ` set (snd st)"
      and cb: "captures k b \<or> k \<in> fst ` set (snd st)"
    by auto
  from "5.prems"(1) have "(j, g') \<in> set (rx_m ic s a st) \<or> (j, g') \<in> set (rx_m ic s b st)"
    by simp
  then show ?case
    using "5.IH"(1) [OF _ ca] "5.IH"(2) [OF _ cb] by blast
qed (auto split: if_splits)

lemma search_result:
  assumes "re_search ic r s = Some m"
  shows "m_start m \<le> length s"
    and "(m_end m, m_caps m) \<in> set (rx_m ic s r (m_start m, []))"
  using re_search_Some [OF assms] by auto

lemma group0_nonempty:
  assumes "re_search ic r s = Some m" and "1 \<le> min_len r"
  shows "group0 s m \<noteq> []"
proof -
  from match_bounds [OF _ search_result(2) [OF assms(1)]] search_result(1) [OF assms(1)]
  have "m_start m + min_len r \<le> m_end m" "m_end m \<le> length s"
    by simp_all
  with assms(2) show ?thesis
    by (simp add: group0_def substr_def)
qed

lemma group_nonempty:
  assumes "re_search ic r s = Some m" and "groups_wide 1 r" and "captures k r"
  shows "group s m k \<noteq> []"
proof -
  note res = search_result [OF assms(1)]
  from match_caps [OF _ assms(2) res(2)] res(1)
  have wide: "\<forall>c \<in> set (m_caps m). fst (snd c) + 1 \<le> snd (snd c) \<and> snd (snd c) \<le> length s"
    by auto
  from match_captures [OF res(2)] assms(3) have "k \<in> fst ` set (m_caps m)"
    by simp
  then obtain ab where ab: "map_of (m_caps m) k = Some ab"
    by (metis (no_types, opaque_lifting) domD dom_map_of_conv_image_fst)
  then have "(k, ab) \<in> set (m_caps m)"
    by (rule map_of_SomeD)
  with wide have "fst ab + 1 \<le> snd ab" "snd ab \<le> length s"
    by auto
  then show ?thesis
    by (cases ab) (simp add: group_def ab substr_def)
qed

lemma extract_timestamp_nonempty: "extract_timestamp line \<noteq> Some []"
proof
  assume "extract_timestamp line = Some []"
  then obtain m where m: "re_search False pat_timestamp line = Some m" and e: "group0 line m = []"
    by (auto simp: extract_timestamp_def split: option.splits)
  have "1 \<le> min_len pat_timestamp"
    by (simp add: pat_timestamp_def exactly_def)
  from group0_nonempty [OF m this] e show False by simp
qed

lemma update_members:
  "kv \<in> set (AList.update k v al) \<Longrightarrow> kv = (k, v) \<or> kv \<in> set al"
  by (induction al) (auto split: if_splits)

lemma identifier_step_nonempty:
  assumes "\<forall>kv \<in> set ids. snd kv \<noteq> []" and "value_pattern_ok kp"
  shows "\<forall>kv \<in> set (identifier_step line ids kp). snd kv \<noteq> []"
proof (cases "re_search True (snd kp) line")
  case None
  with assms(1) show ?thesis by (simp add: identifier_step_def)
next
  case (Some m)
  show ?thesis
  proof (cases "fst kp \<in> set [''user_id'', ''username'', ''trace_id'', ''request_id'', ''session_id'']")
    case True
    with assms(2) have "groups_wide 1 (snd kp)" "captures 1 (snd kp)"
      unfolding value_pattern_ok_def by simp_all
    then have "group line m 1 \<noteq> []"
      by (rule group_nonempty [OF Some])
    moreover from True Some have
      "identifier_step line ids kp = AList.update (fst kp) (group line m 1) ids"
      unfolding identifier_step_def by simp
    ultimately show ?thesis
      using assms(1) by (auto dest!: update_members)
  next
    case False
    with assms(2) have "1 \<le> min_len (snd kp)"
      unfolding value_pattern_ok_def by simp
    then have "group0 line m \<noteq> []"
      by (rule group0_nonempty [OF Some])
    moreover from False Some have
      "identifier_step line ids kp = AList.update (fst kp) (group0 line m) ids"
      unfolding identifier_step_def by simp
    ultimately show ?thesis
      using assms(1) by (auto dest!: update_members)
  qed
qed

lemma identifier_fold_nonempty:
  "\<forall>kv \<in> set ids. snd kv \<noteq> [] \<Longrightarrow> list_all value_pattern_ok kps \<Longrightarrow>
     \<forall>kv \<in> set (foldl (identifier_step line) ids kps). snd kv \<noteq> []"
proof (induction kps arbitrary: ids)
  case Nil
  then show ?case by simp
next
  case (Cons kp kps)
  from Cons.prems(2) have kp: "value_pattern_ok kp" and rest: "list_all value_pattern_ok kps"
    by simp_all
  from Cons.IH [OF identifier_step_nonempty [OF Cons.prems(1) kp] rest]
  show ?case by simp
qed

lemma identifier_patterns_ok: "list_all value_pattern_ok identifier_patterns"
  by (simp add: identifier_patterns_def value_pattern_ok_def pat_user_id_def pat_username_def
      pat_email_def pat_trace_id_def pat_request_id_def pat_session_id_def pat_ip_address_def
      plus_def opt_def)

lemma extract_identifiers_nonempty:
  "kv \<in> set (extract_identifiers line) \<Longrightarrow> snd kv \<noteq> []"
  using identifier_fold_nonempty [OF _ identifier_patterns_ok, of "[]" line]
  by (simp add: extract_identifiers_def)

section \<open>The journey of an identifier\<close>

lemma timestamp_key_eq: "timestamp_key = timestamp_or_empty"
  by (auto simp: timestamp_key_def timestamp_or_empty_def fun_eq_iff split: option.splits)

lemma bucket_Cons: "bucket ((k', b) # d) k = (if k = k' then b else bucket d k)"
  by (simp add: bucket_def)

lemma values_update:
  "indexed (AList.update k (bucket d k @ [e]) d) = insert e (indexed d)"
  unfolding indexed_def by (induction d) (auto simp: bucket_def)

lemma values_dict_append: "indexed (dict_append k e d) = insert e (indexed d)"
  unfolding dict_append_def by (rule values_update)

lemma values_index_fold:
  "indexed (foldl (\<lambda>d kv. if snd kv \<noteq> [] then dict_append (snd kv) e d else d) d kvs) =
     indexed d \<union> (if list_ex (\<lambda>kv. snd kv \<noteq> []) kvs then {e} else {})"
  by (induction kvs arbitrary: d) (simp_all add: values_dict_append)

lemma values_index_entry:
  "indexed (index_entry d e) = indexed d \<union> (if has_identifier e then {e} else {})"
  by (simp only: index_entry_def values_index_fold has_identifier_def)

lemma values_index_entries:
  "indexed (foldl index_entry d es) = indexed d \<union> {e \<in> set es. has_identifier e}"
proof (induction es arbitrary: d)
  case Nil
  then show ?case by simp
next
  case (Cons e es)
  have "indexed (foldl index_entry d (e # es)) =
        (indexed d \<union> (if has_identifier e then {e} else {})) \<union> {x \<in> set es. has_identifier x}"
    by (simp only: foldl_Cons Cons.IH values_index_entry)
  also have "\<dots> = indexed d \<union> {x \<in> set (e # es). has_identifier x}"
    by auto
  finally show ?case .
qed

lemma journey_match_has_identifier: "journey_match q e \<Longrightarrow> has_identifier e"
  by (auto simp: journey_match_def has_identifier_def list_ex_iff)

lemma set_collect_indexed:
  "set (collect_user_logs self q) = {e \<in> indexed (user_sessions self). journey_match q e}"
  by (auto simp: collect_user_logs_def indexed_def)

lemma set_collect:
  "set (collect_user_logs (snd (parse_logs content init)) q) =
     {e \<in> set (doc_entries content). journey_match q e}"
proof -
  have "indexed (user_sessions (snd (parse_logs content init))) =
        {e \<in> set (doc_entries content). has_identifier e}"
    by (simp add: parse_logs_eq init_def values_index_entries) (simp add: indexed_def)
  then show ?thesis
    unfolding set_collect_indexed using journey_match_has_identifier by blast
qed

lemma sorted_empty_first:
  fixes f :: "'a \<Rightarrow> string"
  shows "sorted (map f xs) \<Longrightarrow> xs = filter (\<lambda>x. f x = []) xs @ filter (\<lambda>x. f x \<noteq> []) xs"
proof (induction xs)
  case Nil
  then show ?case by simp
next
  case (Cons x xs)
  then have IH: "xs = filter (\<lambda>x. f x = []) xs @ filter (\<lambda>x. f x \<noteq> []) xs"
    and le: "\<forall>y \<in> set xs. f x \<le> f y"
    by auto
  show ?case
  proof (cases "f x = []")
    case True
    with IH show ?thesis by simp
  next
    case False
    with le have "\<forall>y \<in> set xs. f y \<noteq> []"
      by (metis Nil_le_Cons antisym neq_Nil_conv)
    then have "filter (\<lambda>x. f x = []) xs = []" "filter (\<lambda>x. f x \<noteq> []) xs = xs"
      by (simp_all add: filter_empty_conv filter_id_conv)
    with False show ?thesis by simp
  qed
qed

lemma journey_match_entry:
  assumes "e \<in> set (doc_entries content)"
  shows "journey_match q e \<longleftrightarrow>
     (\<exists>k v pre post. (k, v) \<in> set (identifiers e) \<and> py_lower v = pre @ py_lower q @ post)"
proof -
  from assms obtain i l where e: "e = make_entry i l"
    unfolding doc_entries_def by (blast dest: in_entries_of)
  have ne: "v \<noteq> []" if "(k, v) \<in> set (identifiers e)" for k v
    using that extract_identifiers_nonempty [of "(k, v)" l] by (simp add: e make_entry_fields)
  have "journey_match q e \<longleftrightarrow>
        (\<exists>k v. (k, v) \<in> set (identifiers e) \<and> v \<noteq> [] \<and> py_in (py_lower q) (py_lower v))"
    unfolding journey_match_def list_ex_iff set_map by force
  also have "\<dots> \<longleftrightarrow> (\<exists>k v. (k, v) \<in> set (identifiers e) \<and> py_in (py_lower q) (py_lower v))"
    using ne by blast
  also have "\<dots> \<longleftrightarrow>
     (\<exists>k v pre post. (k, v) \<in> set (identifiers e) \<and> py_lower v = pre @ py_lower q @ post)"
    unfolding py_in_sublist sublist_def by blast
  finally show ?thesis .
qed

lemma timestamp_entry:
  assumes "e \<in> set (doc_entries content)"
  shows "timestamp_or_empty e = [] \<longleftrightarrow> timestamp e = None"
proof -
  from assms obtain i l where e: "e = make_entry i l"
    unfolding doc_entries_def by (blast dest: in_entries_of)
  then have "timestamp e \<noteq> Some []"
    by (simp add: make_entry_fields extract_timestamp_nonempty)
  then show ?thesis
    by (auto simp: timestamp_or_empty_def split: option.splits)
qed

text \<open>
  Claim C8. For a document parsed with a new instance, the journey of a query consists
  of exactly the parsed entries with an identifier value that contains the query, both
  lower-cased, as a contiguous part; it is sorted in ascending order of timestamp, an
  absent timestamp counting as the empty string; entries with equal keys keep the order
  in which they were collected; and all entries without a timestamp come before all
  entries with one.
\<close>

theorem C8_user_journey:
  "set (get_user_journey (snd (parse_logs content init)) q) =
     {e \<in> set (fst (parse_logs content init)).
        \<exists>k v pre post. (k, v) \<in> set (identifiers e) \<and> py_lower v = pre @ py_lower q @ post}
   \<and> sorted (map timestamp_or_empty (get_user_journey (snd (parse_logs content init)) q))
   \<and> (\<forall>k. filter (\<lambda>e. timestamp_or_empty e = k)
              (get_user_journey (snd (parse_logs content init)) q) =
            filter (\<lambda>e. timestamp_or_empty e = k)
              (collect_user_logs (snd (parse_logs content init)) q))
   \<and> get_user_journey (snd (parse_logs content init)) q =
       filter (\<lambda>e. timestamp e = None) (get_user_journey (snd (parse_logs content init)) q) @
       filter (\<lambda>e. timestamp e \<noteq> None) (get_user_journey (snd (parse_logs content init)) q)"
proof -
  let ?S = "snd (parse_logs content init)"
  let ?J = "get_user_journey ?S q"
  have J: "?J = sort_key timestamp_or_empty (collect_user_logs ?S q)"
    by (simp add: get_user_journey_def timestamp_key_eq)
  have entries: "fst (parse_logs content init) = doc_entries content"
    by (simp add: parse_logs_eq)
  have setJ: "set ?J = {e \<in> set (doc_entries content). journey_match q e}"
    by (simp only: J set_sort set_collect)
  have a: "set ?J = {e \<in> set (fst (parse_logs content init)).
        \<exists>k v pre post. (k, v) \<in> set (identifiers e) \<and> py_lower v = pre @ py_lower q @ post}"
    unfolding setJ entries using journey_match_entry by blast
  have b: "sorted (map timestamp_or_empty ?J)"
    by (simp only: J sorted_sort_key)
  have c: "filter (\<lambda>e. timestamp_or_empty e = k) ?J =
           filter (\<lambda>e. timestamp_or_empty e = k) (collect_user_logs ?S q)" for k
    by (simp only: J sort_key_stable)
  have mem: "e \<in> set (doc_entries content)" if "e \<in> set ?J" for e
    using that setJ by blast
  have f1: "filter (\<lambda>e. timestamp_or_empty e = []) ?J = filter (\<lambda>e. timestamp e = None) ?J"
    by (rule filter_cong) (simp_all add: timestamp_entry [OF mem])
  have f2: "filter (\<lambda>e. timestamp_or_empty e \<noteq> []) ?J = filter (\<lambda>e. timestamp e \<noteq> None) ?J"
    by (rule filter_cong) (simp_all add: timestamp_entry [OF mem])
  from sorted_empty_first [OF b] have d: "?J = filter (\<lambda>e. timestamp e = None) ?J @
       filter (\<lambda>e. timestamp e \<noteq> None) ?J"
    unfolding f1 f2 .
  from a b c d show ?thesis by blast
qed

section \<open>The error flag on arbitrary text\<close>

lemma u_in_sublist: "u_in sub s = sublist sub s"
  by (induction s) (simp_all add: sublist_Cons_right)

lemma lfirst_match_None:
  "lfirst_match ci r s is = None \<longleftrightarrow> (\<forall>i \<in> set is. lrx_m ci s r (i, []) = [])"
  by (induction "is") (auto split: list.splits)

lemma lre_search_None:
  "lre_search ci r s = None \<longleftrightarrow> (\<forall>i \<le> length s. lrx_m ci s r (i, []) = [])"
  by (auto simp: lre_search_def lfirst_match_None less_Suc_eq_le)




lemma upat_exception_match:
  "lrx_m ci s upat_exception (i, []) \<noteq> [] \<longleftrightarrow>
     llit_at ci ''Exception'' (drop i s) \<or> llit_at ci ''Error'' (drop i s) \<or>
     llit_at ci ''Traceback'' (drop i s)"
  by (simp add: upat_exception_def)



lemma llit_at_latin1: "llit_at ci_latin1 l (ustr t) = lit_at True l t"
  by (induction True l t rule: lit_at.induct)
     (simp_all add: ustr_def ci_latin1_def lit_ok_def)

lemma lower_latin1_ustr: "lower_latin1 (ustr s) = ustr (py_lower s)"
  by (simp add: lower_latin1_def ustr_def py_lower_def)

lemma u_in_ustr: "u_in (ustr a) (ustr b) = py_in a b"
proof -
  have "sublist (map of_char a) (map of_char b :: nat list) \<longleftrightarrow> sublist a b"
  proof
    assume "sublist (map of_char a) (map of_char b :: nat list)"
    then obtain xs where xs: "sublist xs b" "map of_char a = (map of_char xs :: nat list)"
      by (blast dest: sublist_map_rightE)
    from xs(2) have "a = xs"
      by (simp add: inj_map_eq_map [OF inj_of_char])
    with xs(1) show "sublist a b" by simp
  next
    assume "sublist a b"
    then show "sublist (map of_char a) (map of_char b :: nat list)"
      by (rule map_mono_sublist)
  qed
  then show ?thesis
    by (simp add: u_in_sublist py_in_sublist ustr_def)
qed

lemma exception_search_latin1:
  "is_match (lre_search ci_latin1 upat_exception (ustr s)) =
     is_match (re_search True pat_exception s)"
proof -
  have d: "drop i (ustr s) = ustr (drop i s)" for i
    by (simp add: ustr_def drop_map)
  have "lrx_m ci_latin1 (ustr s) upat_exception (i, []) \<noteq> [] \<longleftrightarrow>
        rx_m True s pat_exception (i, []) \<noteq> []" for i
    unfolding upat_exception_match exception_match d llit_at_latin1 by (rule refl)
  then show ?thesis
    unfolding is_match_iff lre_search_None re_search_None by (simp add: ustr_def)
qed

text \<open>
  On strings of the code points 0..255 the flag computed for a parsed entry is this
  function with the two tables of that range.
\<close>

lemma has_error_line_latin1:
  "has_error_line line = has_error_u ci_latin1 lower_latin1 (ustr line)"
  by (simp only: has_error_line_def has_error_u_def exception_search_latin1 lower_latin1_ustr
      u_in_ustr)

end
